theory Spec2Isabelle
  imports Complex_Main "HOL-Library.AList" "HOL-Library.Log_Nat"
begin

section \<open>Data model of \<^verbatim>\<open>record_dataset.py\<close>\<close>

text \<open>
  The recorder is one sequential Python function, \<^verbatim>\<open>record_dataset(args)\<close>, that
  talks to three collaborators: the file system, the capture devices (through OpenCV)
  and the wall clock. The embedding threads an explicit \<open>world\<close> through every step;
  what the collaborators answer is fixed by an environment \<open>env\<close> of oracles.
  A raised exception is a value of type \<open>error\<close>; the world reached when it is raised
  is returned with it, since the effects performed before a \<^verbatim>\<open>raise\<close> persist.
  Line numbers are those of \<^verbatim>\<open>record_dataset.py\<close>.

  What the model leaves out: console output (\<^verbatim>\<open>print\<close>); failures of the file system
  (\<^verbatim>\<open>mkdir\<close>, \<^verbatim>\<open>open\<close> and the parquet writer are taken to succeed); rounding in the
  arithmetic on clock readings (lines 182 and 196, where a \<^verbatim>\<open>float\<close> is a real number;
  the product of line 150 is rounded as Python rounds it); what OpenCV does inside a
  \<^verbatim>\<open>VideoCapture\<close> or a \<^verbatim>\<open>VideoWriter\<close>: a capture is an oracle that opens or not and answers
  each read, a writer is the list of the frames handed to its \<^verbatim>\<open>write\<close>. The calls
  \<^verbatim>\<open>cap.set\<close> of \<^verbatim>\<open>OpenCVCameraReader.open\<close> have no effect on anything the model tracks.
\<close>

type_synonym path = "string list"
  \<comment> \<open>a \<^verbatim>\<open>pathlib.Path\<close>, as the list of the components joined by \<^verbatim>\<open>/\<close>\<close>

datatype image = Image (shape: "nat \<times> nat \<times> nat") (pixels: nat)
  \<comment> \<open>a captured \<^verbatim>\<open>np.ndarray\<close>: its \<^verbatim>\<open>.shape\<close> (height, width, channels) and its content\<close>

datatype error =
    ValueError_camera_format string  \<comment> \<open>line 105: a camera spec without \<^verbatim>\<open>=\<close>\<close>
  | ValueError_int string            \<comment> \<open>line 107: \<^verbatim>\<open>int(idx)\<close> on a non-integer string\<close>
  | ValueError_no_camera             \<comment> \<open>lines 109 and 130\<close>
  | RuntimeError_open int            \<comment> \<open>line 46: the device did not open\<close>
  | AttributeError_NoneType string   \<comment> \<open>a method called on \<^verbatim>\<open>None\<close>\<close>
  | KeyError string                  \<comment> \<open>a dictionary read at a missing key\<close>
  | ZeroDivisionError                \<comment> \<open>line 196: \<^verbatim>\<open>1 / args.fps\<close>\<close>
  | OverflowError_int_to_float       \<comment> \<open>line 150: \<^verbatim>\<open>args.fps\<close> is too large for a \<^verbatim>\<open>float\<close>\<close>
  | OverflowError_ceil               \<comment> \<open>line 150: \<^verbatim>\<open>math.ceil\<close> of an infinity\<close>
  | ValueError_ceil                  \<comment> \<open>line 150: \<^verbatim>\<open>math.ceil\<close> of a NaN\<close>

fun is_ValueError :: "error \<Rightarrow> bool" where
  "is_ValueError (ValueError_camera_format _) = True"
| "is_ValueError (ValueError_int _) = True"
| "is_ValueError ValueError_no_camera = True"
| "is_ValueError ValueError_ceil = True"
| "is_ValueError _ = False"

datatype pyfloat = Finite real | PosInf | NegInf | NaN
  \<comment> \<open>a Python \<^verbatim>\<open>float\<close>: \<open>Finite x\<close> for the double whose value is \<open>x\<close>, the infinities, NaN\<close>

record args =
  out_dir :: string
  episodes :: int
  duration :: pyfloat
  min_frames :: int
  fps :: int
  camera :: "string list option"
  width :: int
  height :: int
  task :: string

text \<open>One JSON object as written by \<^verbatim>\<open>json.dump\<close>: the four shapes the recorder emits.\<close>

datatype entry =
    Info_json int bool            \<comment> \<open>\<^verbatim>\<open>{"fps": .., "video": ..}\<close>\<close>
  | Task_line int string          \<comment> \<open>\<^verbatim>\<open>{"task_index": .., "task": ..}\<close>\<close>
  | Episode_line int int "int list"
      \<comment> \<open>\<^verbatim>\<open>{"episode_index": .., "episode_length": .., "tasks": ..}\<close>\<close>
  | Stats_line int int            \<comment> \<open>\<^verbatim>\<open>{"episode_index": .., "stats": {"length": ..}}\<close>\<close>

record row =
  timestamp :: real
  frame :: int

datatype event =
    E_mkdir path
  | E_write_info path entry
  | E_append path entry
  | E_open string int bool        \<comment> \<open>camera name, device index, \<^verbatim>\<open>isOpened()\<close>\<close>
  | E_read string bool            \<comment> \<open>camera name, the \<^verbatim>\<open>ok\<close> flag returned\<close>
  | E_init_writer string path
  | E_write string image
  | E_sleep real
  | E_release_writer path
  | E_write_table path
  | E_release_camera string

fun is_open_event :: "event \<Rightarrow> bool" where
  "is_open_event (E_open _ _ _) = True"
| "is_open_event _ = False"

fun is_sleep_event :: "event \<Rightarrow> bool" where
  "is_sleep_event (E_sleep _) = True"
| "is_sleep_event _ = False"

fun is_read_event :: "event \<Rightarrow> bool" where
  "is_read_event (E_read _ _) = True"
| "is_read_event _ = False"

fun is_release_camera_event :: "event \<Rightarrow> bool" where
  "is_release_camera_event (E_release_camera _) = True"
| "is_release_camera_event _ = False"

record world =
  dirs :: "path set"                      \<comment> \<open>the directories that exist\<close>
  files :: "path \<rightharpoonup> entry list"           \<comment> \<open>the JSON files, as the objects written to them\<close>
  tables :: "path \<rightharpoonup> row list"            \<comment> \<open>the parquet files\<close>
  n_reads :: nat                          \<comment> \<open>calls of \<^verbatim>\<open>cap.read()\<close> made so far\<close>
  n_clock :: nat                          \<comment> \<open>calls of \<^verbatim>\<open>time.time()\<close> made so far\<close>
  trace :: "event list"                   \<comment> \<open>the effects performed, oldest first\<close>

record env =
  can_open :: "int \<Rightarrow> bool"
    \<comment> \<open>whether \<^verbatim>\<open>cv2.VideoCapture(index).isOpened()\<close>\<close>
  cam_read :: "nat \<Rightarrow> bool \<times> image"
    \<comment> \<open>what the \<open>n\<close>-th call of \<^verbatim>\<open>cap.read()\<close> of the run returns\<close>
  clock :: "nat \<Rightarrow> real"
    \<comment> \<open>what the \<open>n\<close>-th call of \<^verbatim>\<open>time.time()\<close> of the run returns\<close>

datatype status = Completed | Raised error
  \<comment> \<open>how a call ended; \<open>None :: status option\<close> is a call still running when the fuel ran out\<close>

definition emit :: "event \<Rightarrow> world \<Rightarrow> world" where
  "emit e w = w\<lparr>trace := trace w @ [e]\<rparr>"

definition now :: "env \<Rightarrow> world \<Rightarrow> real \<times> world" where
  \<comment> \<open>\<^verbatim>\<open>time.time()\<close>\<close>
  "now ev w = (clock ev (n_clock w), w\<lparr>n_clock := Suc (n_clock w)\<rparr>)"

section \<open>Helper functions\<close>

subsection \<open>Python's \<^verbatim>\<open>int(str)\<close> and \<^verbatim>\<open>f"{n:06d}"\<close>\<close>

definition is_space :: "char \<Rightarrow> bool" where
  \<comment> \<open>the blanks \<^verbatim>\<open>int\<close> skips around an ASCII literal: tab, LF, VT, FF, CR and space\<close>
  "is_space c = (of_char c \<in> {9, 10, 11, 12, 13, 32 :: nat})"

definition is_digit :: "char \<Rightarrow> bool" where
  "is_digit c = (48 \<le> (of_char c :: nat) \<and> (of_char c :: nat) \<le> 57)"

definition strip :: "string \<Rightarrow> string" where
  "strip s = rev (dropWhile is_space (rev (dropWhile is_space s)))"

fun digits_ok :: "string \<Rightarrow> bool" where
  \<comment> \<open>decimal digits, with single underscores allowed between two digits\<close>
  "digits_ok [] = False"
| "digits_ok [c] = is_digit c"
| "digits_ok (c # d # cs) =
     (is_digit c \<and> (if d = CHR ''_'' then digits_ok cs else digits_ok (d # cs)))"

definition dec_value :: "string \<Rightarrow> int" where
  "dec_value s = foldl (\<lambda>acc c. 10 * acc + (of_char c - 48)) 0 (filter (\<lambda>c. c \<noteq> CHR ''_'') s)"

definition py_int :: "string \<Rightarrow> int option" where
  \<comment> \<open>\<^verbatim>\<open>int(s)\<close> in base 10 on ASCII input; \<open>None\<close> is the \<^verbatim>\<open>ValueError\<close>\<close>
  "py_int s =
     (let t = strip s;
          neg = (t \<noteq> [] \<and> hd t = CHR ''-'');
          body = (if t \<noteq> [] \<and> (hd t = CHR ''-'' \<or> hd t = CHR ''+'') then tl t else t)
      in if digits_ok body then Some (if neg then - dec_value body else dec_value body)
         else None)"

fun digits_of :: "nat \<Rightarrow> string" where
  "digits_of n =
     (if n < 10 then [char_of (48 + n)] else digits_of (n div 10) @ [char_of (48 + n mod 10)])"

definition make_episode_name :: "nat \<Rightarrow> string" where
  \<comment> \<open>\<^verbatim>\<open>_make_episode_name\<close>: \<^verbatim>\<open>f"episode_{ep_idx:06d}"\<close>\<close>
  "make_episode_name ep_idx =
     (let d = digits_of ep_idx in ''episode_'' @ replicate (6 - length d) CHR ''0'' @ d)"

subsection \<open>Python's \<^verbatim>\<open>float\<close> product and \<^verbatim>\<open>math.ceil\<close>\<close>

text \<open>
  Line 150 multiplies the \<^verbatim>\<open>float\<close> \<^verbatim>\<open>args.duration\<close> by the \<^verbatim>\<open>int\<close> \<^verbatim>\<open>args.fps\<close>: the integer is
  converted to a double, and the exact product is rounded to the nearest double, ties to
  the even mantissa (IEEE 754 binary64: 53 bits of mantissa, exponents from \<open>-1022\<close> to
  \<open>1023\<close>, subnormal numbers on the grid of \<open>2 ^ -1074\<close>). The sign of a zero is not kept:
  nothing here tells \<open>-0.0\<close> from \<open>0.0\<close>.
\<close>

definition round_half_even :: "real \<Rightarrow> int" where
  "round_half_even x =
     (let f = \<lfloor>x\<rfloor>; r = x - of_int f
      in if r < 1 / 2 then f else if 1 / 2 < r then f + 1 else if even f then f else f + 1)"

definition pow2 :: "int \<Rightarrow> real" where
  "pow2 e = (if 0 \<le> e then 2 ^ nat e else 1 / 2 ^ nat (- e))"

definition float_exponent :: "real \<Rightarrow> int" where
  \<comment> \<open>for \<open>x > 0\<close>, the \<open>e\<close> with \<open>2 ^ e \<le> x < 2 ^ (e + 1)\<close>\<close>
  "float_exponent x = (if 1 \<le> x then bitlen \<lfloor>x\<rfloor> - 1 else - bitlen (\<lceil>1 / x\<rceil> - 1))"

definition round_double :: "real \<Rightarrow> pyfloat" where
  \<comment> \<open>the double nearest to \<open>x\<close>, an infinity when that is beyond the largest double\<close>
  "round_double x =
     (if x = 0 then Finite 0
      else
        let q = max (float_exponent \<bar>x\<bar> - 52) (- 1074);
            y = of_int (round_half_even (\<bar>x\<bar> / pow2 q)) * pow2 q
        in if pow2 1024 \<le> y then (if 0 < x then PosInf else NegInf)
           else Finite (if 0 < x then y else - y))"

definition int_to_float :: "int \<Rightarrow> error + real" where
  \<comment> \<open>the conversion of an \<^verbatim>\<open>int\<close> operand to \<^verbatim>\<open>float\<close>\<close>
  "int_to_float n =
     (case round_double (of_int n) of
        Finite y \<Rightarrow> Inr y
      | _ \<Rightarrow> Inl OverflowError_int_to_float)"

fun float_mul :: "pyfloat \<Rightarrow> real \<Rightarrow> pyfloat" where
  \<comment> \<open>\<^verbatim>\<open>x * y\<close> for a \<^verbatim>\<open>float\<close> \<open>x\<close> and a finite \<^verbatim>\<open>float\<close> \<open>y\<close>\<close>
  "float_mul (Finite x) y = round_double (x * y)"
| "float_mul PosInf y = (if y = 0 then NaN else if 0 < y then PosInf else NegInf)"
| "float_mul NegInf y = (if y = 0 then NaN else if 0 < y then NegInf else PosInf)"
| "float_mul NaN y = NaN"

fun math_ceil :: "pyfloat \<Rightarrow> error + int" where
  \<comment> \<open>\<^verbatim>\<open>math.ceil\<close>\<close>
  "math_ceil (Finite x) = Inr \<lceil>x\<rceil>"
| "math_ceil NaN = Inl ValueError_ceil"
| "math_ceil _ = Inl OverflowError_ceil"

subsection \<open>The file system\<close>

definition mkdir :: "path \<Rightarrow> world \<Rightarrow> world" where
  \<comment> \<open>\<^verbatim>\<open>d.mkdir(parents=True, exist_ok=True)\<close>\<close>
  "mkdir d w =
     emit (E_mkdir d) (w\<lparr>dirs := dirs w \<union> set (map (\<lambda>k. take k d) [1..<Suc (length d)])\<rparr>)"

definition write_info_json :: "path \<Rightarrow> int \<Rightarrow> world \<Rightarrow> world" where
  \<comment> \<open>\<^verbatim>\<open>_write_info_json\<close>: mode \<^verbatim>\<open>"w"\<close> replaces the content\<close>
  "write_info_json meta_dir f w =
     emit (E_write_info (meta_dir @ [''info.json'']) (Info_json f True))
       (w\<lparr>files := (files w)(meta_dir @ [''info.json''] \<mapsto> [Info_json f True])\<rparr>)"

definition append_jsonl :: "path \<Rightarrow> entry \<Rightarrow> world \<Rightarrow> world" where
  \<comment> \<open>\<^verbatim>\<open>_append_jsonl\<close>: mode \<^verbatim>\<open>"a"\<close> creates the file or writes after its end\<close>
  "append_jsonl p data w =
     emit (E_append p data)
       (w\<lparr>files := (files w)(p \<mapsto> (case files w p of None \<Rightarrow> [] | Some ls \<Rightarrow> ls) @ [data])\<rparr>)"

definition write_table :: "path \<Rightarrow> row list \<Rightarrow> world \<Rightarrow> world" where
  \<comment> \<open>\<^verbatim>\<open>pq.write_table(pa.Table.from_pandas(pd.DataFrame(rows)), path)\<close>\<close>
  "write_table p rs w = emit (E_write_table p) (w\<lparr>tables := (tables w)(p \<mapsto> rs)\<rparr>)"

definition meta_dir :: "args \<Rightarrow> path" where
  "meta_dir a = [out_dir a, ''meta'']"

definition data_dir :: "args \<Rightarrow> path" where
  "data_dir a = [out_dir a, ''data'', ''chunk-000'']"

definition video_dir_root :: "args \<Rightarrow> path" where
  "video_dir_root a = [out_dir a, ''videos'', ''chunk-000'']"

definition video_dir :: "args \<Rightarrow> string \<Rightarrow> path" where
  "video_dir a name = video_dir_root a @ [''observation.images.'' @ name]"

definition info_path :: "args \<Rightarrow> path" where
  "info_path a = meta_dir a @ [''info.json'']"

definition tasks_path :: "args \<Rightarrow> path" where
  "tasks_path a = meta_dir a @ [''tasks.jsonl'']"

definition episodes_path :: "args \<Rightarrow> path" where
  "episodes_path a = meta_dir a @ [''episodes.jsonl'']"

definition stats_path :: "args \<Rightarrow> path" where
  "stats_path a = meta_dir a @ [''episodes_stats.jsonl'']"

section \<open>\<^verbatim>\<open>record_dataset\<close>, lines 98 to 137: configuration, layout, cameras\<close>

fun parse_cam_specs :: "string list \<Rightarrow> (string \<times> int) list \<Rightarrow> error + (string \<times> int) list" where
  \<comment> \<open>lines 103 to 107; the dictionary \<^verbatim>\<open>cam_specs\<close> is an association list in insertion order\<close>
  "parse_cam_specs [] cam_specs = Inr cam_specs"
| "parse_cam_specs (spec # rest) cam_specs =
     (if CHR ''='' \<notin> set spec then Inl (ValueError_camera_format spec)
      else let name = takeWhile (\<lambda>c. c \<noteq> CHR ''='') spec;
               idx = drop 1 (dropWhile (\<lambda>c. c \<noteq> CHR ''='') spec)
           in case py_int idx of
                None \<Rightarrow> Inl (ValueError_int idx)
              | Some i \<Rightarrow> parse_cam_specs rest (AList.update name i cam_specs))"

definition get_cam_specs :: "args \<Rightarrow> error + (string \<times> int) list" where
  \<comment> \<open>lines 99 to 109\<close>
  "get_cam_specs a =
     (case (case camera a of None \<Rightarrow> Inr [(''front'', 0)] | Some specs \<Rightarrow> parse_cam_specs specs []) of
        Inl e \<Rightarrow> Inl e
      | Inr cam_specs \<Rightarrow> if length cam_specs = 0 then Inl ValueError_no_camera else Inr cam_specs)"

definition make_layout :: "args \<Rightarrow> (string \<times> int) list \<Rightarrow> world \<Rightarrow> world" where
  \<comment> \<open>lines 118 to 127: the directories, \<^verbatim>\<open>info.json\<close>, and \<^verbatim>\<open>tasks.jsonl\<close> when it is absent\<close>
  "make_layout a cam_specs w =
     (let video_dirs = map (\<lambda>name. video_dir a name) (map fst cam_specs);
          w1 = fold mkdir ([meta_dir a, data_dir a] @ video_dirs) w;
          w2 = write_info_json (meta_dir a) (fps a) w1
      in if files w2 (tasks_path a) = None
         then append_jsonl (tasks_path a) (Task_line 0 (task a)) w2
         else w2)"

fun open_cameras ::
  "env \<Rightarrow> (string \<times> int) list \<Rightarrow> (string \<times> int) list \<Rightarrow> world
     \<Rightarrow> (error + (string \<times> int) list) \<times> world" where
  \<comment> \<open>lines 133 to 137; \<^verbatim>\<open>cam_readers\<close> maps a name to the device index of its opened reader\<close>
  "open_cameras ev [] cam_readers w = (Inr cam_readers, w)"
| "open_cameras ev ((name, idx) # rest) cam_readers w =
     (let w1 = emit (E_open name idx (can_open ev idx)) w
      in if \<not> can_open ev idx then (Inl (RuntimeError_open idx), w1)
         else open_cameras ev rest (AList.update name idx cam_readers) w1)"

fun release_cameras :: "(string \<times> int) list \<Rightarrow> world \<Rightarrow> world" where
  \<comment> \<open>lines 225 and 226\<close>
  "release_cameras [] w = w"
| "release_cameras ((name, idx) # rest) w = release_cameras rest (emit (E_release_camera name) w)"

section \<open>\<^verbatim>\<open>record_dataset\<close>, lines 140 to 226: the episodes\<close>

record video_writer =
  vw_path :: path
  vw_fps :: int
  vw_size :: "nat \<times> nat"               \<comment> \<open>(width, height)\<close>
  vw_frames :: "image list"              \<comment> \<open>the frames passed to \<^verbatim>\<open>write\<close>, oldest first\<close>

definition init_video_writer :: "path \<Rightarrow> int \<Rightarrow> nat \<times> nat \<times> nat \<Rightarrow> video_writer" where
  \<comment> \<open>\<^verbatim>\<open>_init_video_writer\<close>\<close>
  "init_video_writer p f frame_shape =
     (case frame_shape of (h, wd, _) \<Rightarrow>
        \<lparr>vw_path = p, vw_fps = f, vw_size = (wd, h), vw_frames = []\<rparr>)"

record ep_state =
  rows :: "row list"
  vw_writers :: "(string \<times> video_writer option) list"
  frame_count :: int

datatype flow = Next | Break | Raise error
  \<comment> \<open>how one pass through the body of the \<^verbatim>\<open>while\<close> loop ends\<close>

datatype loop_exit = Bound_reached | Min_frames_reached | Loop_raised error

definition max_frames_py :: "args \<Rightarrow> error + int" where
  \<comment> \<open>line 150: \<^verbatim>\<open>math.ceil(args.duration * args.fps)\<close>, which may raise\<close>
  "max_frames_py a =
     (case int_to_float (fps a) of
        Inl e \<Rightarrow> Inl e
      | Inr y \<Rightarrow> math_ceil (float_mul (duration a) y))"

definition max_frames :: "args \<Rightarrow> int" where
  \<comment> \<open>the value line 150 gives to \<^verbatim>\<open>max_frames\<close>; where line 150 raises, the loop is never
      entered (see \<open>record_episode\<close>) and the value here, 0, stands for no pass at all\<close>
  "max_frames a = (case max_frames_py a of Inr m \<Rightarrow> m | Inl _ \<Rightarrow> 0)"

fun read_all ::
  "env \<Rightarrow> (string \<times> int) list \<Rightarrow> image list \<Rightarrow> world \<Rightarrow> bool \<times> image list \<times> world" where
  \<comment> \<open>lines 155 to 163: stops at the first camera whose read fails\<close>
  "read_all ev [] frames w = (True, frames, w)"
| "read_all ev ((name, idx) # rest) frames w =
     (let (ok, fr) = cam_read ev (n_reads w);
          w1 = emit (E_read name ok) (w\<lparr>n_reads := Suc (n_reads w)\<rparr>)
      in if \<not> ok then (False, frames, w1)
         else read_all ev rest (frames @ [fr]) w1)"

fun init_writers ::
  "args \<Rightarrow> string \<Rightarrow> (string \<times> image) list \<Rightarrow> (string \<times> video_writer option) list \<Rightarrow> world
     \<Rightarrow> (string \<times> video_writer option) list \<times> world" where
  \<comment> \<open>lines 170 to 175\<close>
  "init_writers a ep_name [] vws w = (vws, w)"
| "init_writers a ep_name ((cam_name, fr) # rest) vws w =
     (let p = video_dir a cam_name @ [ep_name @ ''.mp4'']
      in init_writers a ep_name rest
           (AList.update cam_name (Some (init_video_writer p (fps a) (shape fr))) vws)
           (emit (E_init_writer cam_name p) w))"

fun write_frames ::
  "(string \<times> image) list \<Rightarrow> (string \<times> video_writer option) list \<Rightarrow> world
     \<Rightarrow> error option \<times> (string \<times> video_writer option) list \<times> world" where
  \<comment> \<open>lines 178 and 179\<close>
  "write_frames [] vws w = (None, vws, w)"
| "write_frames ((cam_name, fr) # rest) vws w =
     (case map_of vws cam_name of
        None \<Rightarrow> (Some (KeyError cam_name), vws, w)
      | Some None \<Rightarrow> (Some (AttributeError_NoneType ''write''), vws, w)
      | Some (Some vw) \<Rightarrow>
          write_frames rest
            (AList.update cam_name (Some (vw\<lparr>vw_frames := vw_frames vw @ [fr]\<rparr>)) vws)
            (emit (E_write cam_name fr) w))"

fun release_writers :: "(string \<times> video_writer option) list \<Rightarrow> world \<Rightarrow> error option \<times> world" where
  \<comment> \<open>lines 201 and 202\<close>
  "release_writers [] w = (None, w)"
| "release_writers ((name, None) # rest) w = (Some (AttributeError_NoneType ''release''), w)"
| "release_writers ((name, Some vw) # rest) w =
     release_writers rest (emit (E_release_writer (vw_path vw)) w)"

definition ensure_writers ::
  "args \<Rightarrow> string \<Rightarrow> (string \<times> int) list \<Rightarrow> image list
     \<Rightarrow> (string \<times> video_writer option) list \<Rightarrow> world
     \<Rightarrow> (string \<times> video_writer option) list \<times> world" where
  \<comment> \<open>lines 169 to 175: the writers are created on the first pass whose reads all succeed\<close>
  "ensure_writers a ep_name cam_specs frames vws w =
     (if \<exists>vw \<in> set (map snd vws). vw = None
      then init_writers a ep_name (zip (map fst cam_specs) frames) vws w
      else (vws, w))"

definition pace :: "env \<Rightarrow> args \<Rightarrow> real \<Rightarrow> int \<Rightarrow> world \<Rightarrow> flow \<times> world" where
  \<comment> \<open>lines 191 to 198: the \<^verbatim>\<open>min_frames\<close> test, then the sleep up to the next sampling time\<close>
  "pace ev a loop_start fc w =
     (if fc \<ge> min_frames a then (Break, w)
      else if fps a = 0 then (Raise ZeroDivisionError, w)
      else
        let (t', w') = now ev w;
            dt = 1 / real_of_int (fps a) - (t' - loop_start)
        in (Next, if dt > 0 then emit (E_sleep dt) w' else w'))"

definition tick ::
  "env \<Rightarrow> args \<Rightarrow> (string \<times> int) list \<Rightarrow> (string \<times> int) list \<Rightarrow> string \<Rightarrow> real
     \<Rightarrow> ep_state \<times> world \<Rightarrow> flow \<times> ep_state \<times> world" where
  \<comment> \<open>lines 152 to 198: one pass through the loop body\<close>
  "tick ev a cam_specs cam_readers ep_name start_t sw =
     (let (s, w) = sw;
          (loop_start, w1) = now ev w;
          (success, frames, w2) = read_all ev cam_readers [] w1
      in if \<not> success then (Next, s, w2)
         else
           let (vws, w3) = ensure_writers a ep_name cam_specs frames (vw_writers s) w2;
               (err, vws', w4) = write_frames (zip (map fst cam_specs) frames) vws w3
           in (case err of
                 Some e \<Rightarrow> (Raise e, s\<lparr>vw_writers := vws'\<rparr>, w4)
               | None \<Rightarrow>
                   (let (t, w5) = now ev w4;
                        s1 = s\<lparr>vw_writers := vws',
                               rows := rows s @ [\<lparr>timestamp = t - start_t, frame = frame_count s\<rparr>],
                               frame_count := frame_count s + 1\<rparr>;
                        (fl, w6) = pace ev a loop_start (frame_count s1) w5
                    in (fl, s1, w6))))"

fun episode_loop ::
  "nat \<Rightarrow> env \<Rightarrow> args \<Rightarrow> (string \<times> int) list \<Rightarrow> (string \<times> int) list \<Rightarrow> string \<Rightarrow> real
     \<Rightarrow> ep_state \<times> world \<Rightarrow> loop_exit option \<times> ep_state \<times> world" where
  \<comment> \<open>the \<^verbatim>\<open>while\<close> loop of line 151, allowed at most \<open>n\<close> passes; \<open>None\<close>: still running\<close>
  "episode_loop 0 ev a cam_specs cam_readers ep_name start_t sw =
     (if frame_count (fst sw) < max_frames a then (None, sw) else (Some Bound_reached, sw))"
| "episode_loop (Suc n) ev a cam_specs cam_readers ep_name start_t sw =
     (if frame_count (fst sw) < max_frames a
      then case tick ev a cam_specs cam_readers ep_name start_t sw of
             (Next, sw') \<Rightarrow> episode_loop n ev a cam_specs cam_readers ep_name start_t sw'
           | (Break, sw') \<Rightarrow> (Some Min_frames_reached, sw')
           | (Raise e, sw') \<Rightarrow> (Some (Loop_raised e), sw')
      else (Some Bound_reached, sw))"

definition init_ep_state :: "(string \<times> int) list \<Rightarrow> ep_state" where
  \<comment> \<open>lines 143 to 149\<close>
  "init_ep_state cam_specs =
     \<lparr>rows = [], vw_writers = map (\<lambda>name. (name, None)) (map fst cam_specs), frame_count = 0\<rparr>"

inductive loop_reach ::
  "env \<Rightarrow> args \<Rightarrow> (string \<times> int) list \<Rightarrow> (string \<times> int) list \<Rightarrow> string \<Rightarrow> real
     \<Rightarrow> ep_state \<times> world \<Rightarrow> flow \<times> ep_state \<times> world \<Rightarrow> bool"
  for ev a cam_specs cam_readers ep_name start_t sw0 where
  \<comment> \<open>the configurations the loop passes through when started in \<open>sw0\<close>: \<open>Next\<close> at the loop
      head, \<open>Break\<close> and \<open>Raise\<close> where it was left\<close>
  reach_start: "loop_reach ev a cam_specs cam_readers ep_name start_t sw0 (Next, sw0)"
| reach_step:
    "loop_reach ev a cam_specs cam_readers ep_name start_t sw0 (Next, sw) \<Longrightarrow>
     frame_count (fst sw) < max_frames a \<Longrightarrow>
     tick ev a cam_specs cam_readers ep_name start_t sw = c \<Longrightarrow>
     loop_reach ev a cam_specs cam_readers ep_name start_t sw0 c"

code_pred (modes: i \<Rightarrow> i \<Rightarrow> i \<Rightarrow> i \<Rightarrow> i \<Rightarrow> i \<Rightarrow> i \<Rightarrow> o \<Rightarrow> bool) loop_reach .

definition record_episode ::
  "nat \<Rightarrow> env \<Rightarrow> args \<Rightarrow> (string \<times> int) list \<Rightarrow> (string \<times> int) list \<Rightarrow> nat \<Rightarrow> world
     \<Rightarrow> status option \<times> world" where
  \<comment> \<open>lines 141 to 221: the body of the \<^verbatim>\<open>for ep\<close> loop\<close>
  "record_episode fuel ev a cam_specs cam_readers ep w =
     (let ep_name = make_episode_name ep;
          (start_t, w1) = now ev w
      in (case max_frames_py a of
            Inl e \<Rightarrow> (Some (Raised e), w1)
          | Inr _ \<Rightarrow>
              (let (ex, s, w2) = episode_loop fuel ev a cam_specs cam_readers ep_name start_t
                                   (init_ep_state cam_specs, w1)
               in (case ex of
                     None \<Rightarrow> (None, w2)
                   | Some (Loop_raised e) \<Rightarrow> (Some (Raised e), w2)
                   | Some _ \<Rightarrow>
                       (let (err, w3) = release_writers (vw_writers s) w2
                        in (case err of
                              Some e \<Rightarrow> (Some (Raised e), w3)
                            | None \<Rightarrow>
                                (let w4 = write_table (data_dir a @ [ep_name @ ''.parquet''])
                                            (rows s) w3;
                                     w5 = append_jsonl (episodes_path a)
                                            (Episode_line (int ep) (frame_count s) [0]) w4;
                                     w6 = append_jsonl (stats_path a)
                                            (Stats_line (int ep) (frame_count s)) w5
                                 in (Some Completed, w6))))))))"

fun episodes_loop ::
  "nat \<Rightarrow> env \<Rightarrow> args \<Rightarrow> (string \<times> int) list \<Rightarrow> (string \<times> int) list \<Rightarrow> nat list \<Rightarrow> world
     \<Rightarrow> status option \<times> world" where
  \<comment> \<open>line 140: \<^verbatim>\<open>for ep in range(args.episodes)\<close>\<close>
  "episodes_loop fuel ev a cam_specs cam_readers [] w = (Some Completed, w)"
| "episodes_loop fuel ev a cam_specs cam_readers (ep # eps) w =
     (case record_episode fuel ev a cam_specs cam_readers ep w of
        (Some Completed, w') \<Rightarrow> episodes_loop fuel ev a cam_specs cam_readers eps w'
      | r \<Rightarrow> r)"

definition record_dataset :: "nat \<Rightarrow> env \<Rightarrow> args \<Rightarrow> world \<Rightarrow> status option \<times> world" where
  \<comment> \<open>\<^verbatim>\<open>record_dataset(args)\<close>; every episode's loop is allowed \<open>fuel\<close> passes\<close>
  "record_dataset fuel ev a w =
     (case get_cam_specs a of
        Inl e \<Rightarrow> (Some (Raised e), w)
      | Inr cam_specs \<Rightarrow>
          (let w1 = make_layout a cam_specs w
           in if length cam_specs = 0 then (Some (Raised ValueError_no_camera), w1)
              else
                let (opened, w2) = open_cameras ev cam_specs [] w1
                in (case opened of
                      Inl e \<Rightarrow> (Some (Raised e), w2)
                    | Inr cam_readers \<Rightarrow>
                        (let (st, w3) = episodes_loop fuel ev a cam_specs cam_readers
                                          [0..<nat (episodes a)] w2
                         in (case st of
                               None \<Rightarrow> (None, w3)
                             | Some r \<Rightarrow> (Some r, release_cameras cam_readers w3))))))"

section \<open>Notions used in the statements and the proofs\<close>

definition keeps_lines :: "world \<Rightarrow> world \<Rightarrow> path \<Rightarrow> bool" where
  \<comment> \<open>every line the file at \<open>p\<close> had in \<open>w\<close> is still there in \<open>w'\<close>, in place; lines may
      have been added after them\<close>
  "keeps_lines w w' p =
     (case files w p of
        None \<Rightarrow> True
      | Some old \<Rightarrow> (case files w' p of None \<Rightarrow> False | Some new \<Rightarrow> take (length old) new = old))"

definition frames_written :: "ep_state \<Rightarrow> string \<Rightarrow> nat" where
  \<comment> \<open>how many frames the video of camera \<open>name\<close> holds; none while its writer is \<^verbatim>\<open>None\<close>\<close>
  "frames_written s name =
     (case map_of (vw_writers s) name of
        Some (Some vw) \<Rightarrow> length (vw_frames vw)
      | _ \<Rightarrow> 0)"

definition consistent :: "(string \<times> int) list \<Rightarrow> ep_state \<Rightarrow> bool" where
  \<comment> \<open>the loop invariant: one writer slot per camera, all still \<^verbatim>\<open>None\<close> with no row yet,
      or all created and as long as the row buffer; \<^verbatim>\<open>frame_count\<close> is the number of rows\<close>
  "consistent cam_specs s =
     (map fst (vw_writers s) = map fst cam_specs \<and>
      frame_count s = int (length (rows s)) \<and>
      ((rows s = [] \<and> (\<forall>n \<in> set (map fst cam_specs). map_of (vw_writers s) n = Some None)) \<or>
       (\<forall>n \<in> set (map fst cam_specs).
          \<exists>vw. map_of (vw_writers s) n = Some (Some vw) \<and> length (vw_frames vw) = length (rows s))))"

fun no_sleep_after_failed_read :: "bool \<Rightarrow> event list \<Rightarrow> bool" where
  \<comment> \<open>no \<^verbatim>\<open>time.sleep\<close> stands between a read that failed and the next read; \<open>failed\<close> tells
      whether the last read before the list failed\<close>
  "no_sleep_after_failed_read failed [] = True"
| "no_sleep_after_failed_read failed (E_read name ok # es) = no_sleep_after_failed_read (\<not> ok) es"
| "no_sleep_after_failed_read failed (E_sleep dt # es) =
     (\<not> failed \<and> no_sleep_after_failed_read failed es)"
| "no_sleep_after_failed_read failed (e # es) = no_sleep_after_failed_read failed es"

fun failed_pending :: "bool \<Rightarrow> event list \<Rightarrow> bool" where
  \<comment> \<open>whether the last read up to the end of the list failed\<close>
  "failed_pending failed [] = failed"
| "failed_pending failed (E_read name ok # es) = failed_pending (\<not> ok) es"
| "failed_pending failed (e # es) = failed_pending failed es"

section \<open>Concrete runs\<close>

text \<open>
  Inputs on which the theorems below are instantiated.
\<close>

definition world0 :: world where
  \<comment> \<open>an empty output directory, nothing done yet\<close>
  "world0 = \<lparr>dirs = {}, files = Map.empty, tables = Map.empty,
              n_reads = 0, n_clock = 0, trace = []\<rparr>"

definition world1 :: world where
  \<comment> \<open>\<open>world0\<close> after the reading of the clock that gives \<^verbatim>\<open>start_t\<close>\<close>
  "world1 = world0\<lparr>n_clock := 1\<rparr>"

definition world_rerun :: world where
  \<comment> \<open>the output directory \<^verbatim>\<open>out\<close> after an earlier run at 15 fps that recorded one episode\<close>
  "world_rerun =
     \<lparr>dirs = {[''out''], [''out'', ''meta'']},
      files = [[''out'', ''meta'', ''info.json''] \<mapsto> [Info_json 15 True],
               [''out'', ''meta'', ''tasks.jsonl''] \<mapsto> [Task_line 0 ''Pick the cube''],
               [''out'', ''meta'', ''episodes.jsonl''] \<mapsto> [Episode_line 0 50 [0]],
               [''out'', ''meta'', ''episodes_stats.jsonl''] \<mapsto> [Stats_line 0 50]],
      tables = Map.empty, n_reads = 0, n_clock = 0, trace = []\<rparr>"

definition env_ok :: env where
  \<comment> \<open>every device opens, every read succeeds, the clock advances 10 ms per reading\<close>
  "env_ok = \<lparr>can_open = (\<lambda>_. True), cam_read = (\<lambda>n. (True, Image (480, 640, 3) n)),
             clock = (\<lambda>n. real n / 100)\<rparr>"

definition env_wrist_fails :: env where
  \<comment> \<open>device 0 opens, no other device does\<close>
  "env_wrist_fails = \<lparr>can_open = (\<lambda>i. i = 0), cam_read = (\<lambda>n. (True, Image (480, 640, 3) n)),
                      clock = (\<lambda>n. real n / 100)\<rparr>"

definition env_wrist_drops :: env where
  \<comment> \<open>every device opens; the second read of the run (the first one of \<^verbatim>\<open>wrist\<close>) fails\<close>
  "env_wrist_drops = \<lparr>can_open = (\<lambda>_. True), cam_read = (\<lambda>n. (n \<noteq> 1, Image (480, 640, 3) n)),
                      clock = (\<lambda>n. real n / 100)\<rparr>"

definition env_no_frames :: env where
  \<comment> \<open>every device opens and no read ever succeeds\<close>
  "env_no_frames = \<lparr>can_open = (\<lambda>_. True), cam_read = (\<lambda>n. (False, Image (0, 0, 0) 0)),
                    clock = (\<lambda>n. real n / 100)\<rparr>"

definition env_clock_set_back :: env where
  \<comment> \<open>every device opens and every read succeeds; the system clock, read every 10 ms, is
      set back by ten seconds between the fourth and the fifth reading\<close>
  "env_clock_set_back =
     \<lparr>can_open = (\<lambda>_. True), cam_read = (\<lambda>n. (True, Image (480, 640, 3) n)),
      clock = (\<lambda>n. if n < 4 then 1000 + real n / 100 else 990 + real n / 100)\<rparr>"

definition cams_front :: "(string \<times> int) list" where
  \<comment> \<open>\<^verbatim>\<open>cam_specs\<close> when no \<^verbatim>\<open>--camera\<close> is given\<close>
  "cams_front = [(''front'', 0)]"

definition cams_two :: "(string \<times> int) list" where
  \<comment> \<open>\<^verbatim>\<open>cam_specs\<close> for \<^verbatim>\<open>--camera front=0 --camera wrist=2\<close>\<close>
  "cams_two = [(''front'', 0), (''wrist'', 2)]"

definition args_no_eq :: args where
  \<comment> \<open>\<^verbatim>\<open>--camera front\<close>: the spec lacks \<^verbatim>\<open>=\<close>\<close>
  "args_no_eq = \<lparr>out_dir = ''out'', episodes = 10, duration = Finite 10, min_frames = 50, fps = 30,
                 camera = Some [''front''], width = 640, height = 480, task = ''Custom task''\<rparr>"

definition args_two :: args where
  \<comment> \<open>\<^verbatim>\<open>--camera front=0 --camera wrist=2\<close>, the other options at their defaults\<close>
  "args_two = \<lparr>out_dir = ''out'', episodes = 10, duration = Finite 10, min_frames = 50, fps = 30,
               camera = Some [''front=0'', ''wrist=2''], width = 640, height = 480,
               task = ''Custom task''\<rparr>"

definition args_min_frames_0 :: args where
  \<comment> \<open>\<^verbatim>\<open>--min_frames 0\<close>, the other options at their defaults\<close>
  "args_min_frames_0 = \<lparr>out_dir = ''out'', episodes = 10, duration = Finite 10, min_frames = 0, fps = 30,
                        camera = None, width = 640, height = 480, task = ''Custom task''\<rparr>"

definition args_min_frames_5 :: args where
  \<comment> \<open>\<^verbatim>\<open>--fps 30 --duration 10 --min_frames 5\<close>\<close>
  "args_min_frames_5 = \<lparr>out_dir = ''out'', episodes = 10, duration = Finite 10, min_frames = 5, fps = 30,
                        camera = None, width = 640, height = 480, task = ''Custom task''\<rparr>"

definition args_two_frames :: args where
  \<comment> \<open>\<^verbatim>\<open>--min_frames 2\<close>, the other options at their defaults\<close>
  "args_two_frames = \<lparr>out_dir = ''out'', episodes = 10, duration = Finite 10, min_frames = 2, fps = 30,
                      camera = None, width = 640, height = 480, task = ''Custom task''\<rparr>"

definition args_one_second :: args where
  \<comment> \<open>\<^verbatim>\<open>--fps 30 --duration 1.0 --min_frames 50\<close>\<close>
  "args_one_second = \<lparr>out_dir = ''out'', episodes = 10, duration = Finite 1, min_frames = 50, fps = 30,
                      camera = None, width = 640, height = 480, task = ''Custom task''\<rparr>"

definition args_negative_duration :: args where
  \<comment> \<open>\<^verbatim>\<open>--duration -1\<close>, the other options at their defaults\<close>
  "args_negative_duration = \<lparr>out_dir = ''out'', episodes = 10, duration = Finite (- 1), min_frames = 50,
                             fps = 30, camera = None, width = 640, height = 480,
                             task = ''Custom task''\<rparr>"

definition args_zero_duration :: args where
  \<comment> \<open>\<^verbatim>\<open>--duration 0\<close>, the other options at their defaults\<close>
  "args_zero_duration = \<lparr>out_dir = ''out'', episodes = 10, duration = Finite 0, min_frames = 50,
                         fps = 30, camera = None, width = 640, height = 480,
                         task = ''Custom task''\<rparr>"

definition args_float_007 :: args where
  \<comment> \<open>\<^verbatim>\<open>--duration 0.07 --fps 100\<close>: \<^verbatim>\<open>float("0.07")\<close> is the double nearest to 7/100\<close>
  "args_float_007 = \<lparr>out_dir = ''out'', episodes = 10, duration = round_double (7 / 100),
                      min_frames = 50, fps = 100, camera = None, width = 640, height = 480,
                      task = ''Custom task''\<rparr>"

definition args_float_01 :: args where
  \<comment> \<open>\<^verbatim>\<open>--duration 0.1 --fps 10\<close>: \<^verbatim>\<open>float("0.1")\<close> is the double nearest to 1/10\<close>
  "args_float_01 = \<lparr>out_dir = ''out'', episodes = 10, duration = round_double (1 / 10),
                     min_frames = 50, fps = 10, camera = None, width = 640, height = 480,
                     task = ''Custom task''\<rparr>"

definition args_inf_duration :: args where
  \<comment> \<open>\<^verbatim>\<open>--duration inf\<close>, the other options at their defaults\<close>
  "args_inf_duration = \<lparr>out_dir = ''out'', episodes = 10, duration = PosInf, min_frames = 50,
                        fps = 30, camera = None, width = 640, height = 480,
                        task = ''Custom task''\<rparr>"

definition args_nan_duration :: args where
  \<comment> \<open>\<^verbatim>\<open>--duration nan\<close>, the other options at their defaults\<close>
  "args_nan_duration = \<lparr>out_dir = ''out'', episodes = 10, duration = NaN, min_frames = 50,
                        fps = 30, camera = None, width = 640, height = 480,
                        task = ''Custom task''\<rparr>"

section \<open>Properties of the steps\<close>

subsection \<open>Effects on the world\<close>

declare digits_of.simps [simp del]

lemma emit_simps [simp]:
  "trace (emit e w) = trace w @ [e]" "files (emit e w) = files w" "dirs (emit e w) = dirs w"
  "tables (emit e w) = tables w" "n_reads (emit e w) = n_reads w" "n_clock (emit e w) = n_clock w"
  by (simp_all add: emit_def)

lemma now_simps [simp]:
  "fst (now ev w) = clock ev (n_clock w)"
  "trace (snd (now ev w)) = trace w" "files (snd (now ev w)) = files w"
  "dirs (snd (now ev w)) = dirs w" "tables (snd (now ev w)) = tables w"
  "n_reads (snd (now ev w)) = n_reads w" "n_clock (snd (now ev w)) = Suc (n_clock w)"
  by (simp_all add: now_def)

lemma paths_distinct [simp]:
  "info_path a \<noteq> tasks_path a" "info_path a \<noteq> episodes_path a" "info_path a \<noteq> stats_path a"
  "tasks_path a \<noteq> episodes_path a" "tasks_path a \<noteq> stats_path a" "episodes_path a \<noteq> stats_path a"
  "tasks_path a \<noteq> info_path a" "episodes_path a \<noteq> info_path a" "stats_path a \<noteq> info_path a"
  "episodes_path a \<noteq> tasks_path a" "stats_path a \<noteq> tasks_path a" "stats_path a \<noteq> episodes_path a"
  by (simp_all add: info_path_def tasks_path_def episodes_path_def stats_path_def meta_dir_def)

lemma mkdir_simps [simp]:
  "trace (mkdir d w) = trace w @ [E_mkdir d]" "files (mkdir d w) = files w"
  "tables (mkdir d w) = tables w" "n_reads (mkdir d w) = n_reads w" "n_clock (mkdir d w) = n_clock w"
  by (simp_all add: mkdir_def)

lemma mkdir_dirs: "dirs w \<subseteq> dirs (mkdir d w)" "d \<noteq> [] \<Longrightarrow> d \<in> dirs (mkdir d w)"
proof -
  show "dirs w \<subseteq> dirs (mkdir d w)" by (auto simp: mkdir_def)
  assume "d \<noteq> []"
  then have "length d \<in> set [1..<Suc (length d)]" by (cases d) auto
  then have "take (length d) d \<in> (\<lambda>k. take k d) ` set [1..<Suc (length d)]" by (rule imageI)
  then have "d \<in> set (map (\<lambda>k. take k d) [1..<Suc (length d)])" by (simp only: set_map take_all order_refl)
  then show "d \<in> dirs (mkdir d w)" unfolding mkdir_def by (simp del: set_upt upt_Suc)
qed

lemma fold_mkdir_simps [simp]:
  "trace (fold mkdir ds w) = trace w @ map E_mkdir ds" "files (fold mkdir ds w) = files w"
  "tables (fold mkdir ds w) = tables w" "n_reads (fold mkdir ds w) = n_reads w"
  "n_clock (fold mkdir ds w) = n_clock w"
  by (induction ds arbitrary: w; simp)+

lemma fold_mkdir_dirs_mono: "dirs w \<subseteq> dirs (fold mkdir ds w)"
proof (induction ds arbitrary: w)
  case Nil
  show ?case by simp
next
  case (Cons d ds)
  have "dirs w \<subseteq> dirs (mkdir d w)" by (rule mkdir_dirs)
  also have "\<dots> \<subseteq> dirs (fold mkdir ds (mkdir d w))" by (rule Cons.IH)
  finally show ?case by simp
qed

lemma fold_mkdir_dirs: "d \<in> set ds \<Longrightarrow> d \<noteq> [] \<Longrightarrow> d \<in> dirs (fold mkdir ds w)"
proof (induction ds arbitrary: w)
  case Nil
  then show ?case by simp
next
  case (Cons x ds)
  show ?case
  proof (cases "d = x")
    case True
    with Cons.prems have "d \<in> dirs (mkdir x w)" by (simp add: mkdir_dirs)
    then show ?thesis using fold_mkdir_dirs_mono [of "mkdir x w" ds] by auto
  next
    case False
    with Cons show ?thesis by simp
  qed
qed

lemma write_info_json_simps [simp]:
  "trace (write_info_json m f w) = trace w @ [E_write_info (m @ [''info.json'']) (Info_json f True)]"
  "files (write_info_json m f w) = (files w)(m @ [''info.json''] \<mapsto> [Info_json f True])"
  "dirs (write_info_json m f w) = dirs w"
  "tables (write_info_json m f w) = tables w" "n_reads (write_info_json m f w) = n_reads w"
  "n_clock (write_info_json m f w) = n_clock w"
  by (simp_all add: write_info_json_def)

lemma append_jsonl_simps [simp]:
  "trace (append_jsonl p d w) = trace w @ [E_append p d]"
  "files (append_jsonl p d w) = (files w)(p \<mapsto> (case files w p of None \<Rightarrow> [] | Some ls \<Rightarrow> ls) @ [d])"
  "dirs (append_jsonl p d w) = dirs w"
  "tables (append_jsonl p d w) = tables w" "n_reads (append_jsonl p d w) = n_reads w"
  "n_clock (append_jsonl p d w) = n_clock w"
  by (simp_all add: append_jsonl_def)

lemma write_table_simps [simp]:
  "trace (write_table p rs w) = trace w @ [E_write_table p]"
  "files (write_table p rs w) = files w"
  "dirs (write_table p rs w) = dirs w"
  "tables (write_table p rs w) = (tables w)(p \<mapsto> rs)" "n_reads (write_table p rs w) = n_reads w"
  "n_clock (write_table p rs w) = n_clock w"
  by (simp_all add: write_table_def)

lemma make_layout_trace:
  "trace (make_layout a cs w) =
     trace w @ map E_mkdir ([meta_dir a, data_dir a] @ map (video_dir a) (map fst cs))
       @ [E_write_info (info_path a) (Info_json (fps a) True)]
       @ (if files w (tasks_path a) = None then [E_append (tasks_path a) (Task_line 0 (task a))] else [])"
  by (simp add: make_layout_def Let_def info_path_def tasks_path_def meta_dir_def)

lemma make_layout_files:
  "files (make_layout a cs w) =
     (if files w (tasks_path a) = None
      then (files w)(info_path a \<mapsto> [Info_json (fps a) True], tasks_path a \<mapsto> [Task_line 0 (task a)])
      else (files w)(info_path a \<mapsto> [Info_json (fps a) True]))"
  by (simp add: make_layout_def Let_def info_path_def tasks_path_def meta_dir_def)

lemma make_layout_dirs:
  "meta_dir a \<in> dirs (make_layout a cs w)" "data_dir a \<in> dirs (make_layout a cs w)"
  "dirs w \<subseteq> dirs (make_layout a cs w)"
proof -
  let ?ds = "[meta_dir a, data_dir a] @ map (video_dir a) (map fst cs)"
  have d: "dirs (make_layout a cs w) = dirs (fold mkdir ?ds w)"
    by (simp add: make_layout_def Let_def)
  have "meta_dir a \<in> dirs (fold mkdir ?ds w)"
    by (rule fold_mkdir_dirs) (simp_all add: meta_dir_def)
  then show "meta_dir a \<in> dirs (make_layout a cs w)" using d by simp
  have "data_dir a \<in> dirs (fold mkdir ?ds w)"
    by (rule fold_mkdir_dirs) (simp_all add: data_dir_def)
  then show "data_dir a \<in> dirs (make_layout a cs w)" using d by simp
  show "dirs w \<subseteq> dirs (make_layout a cs w)" using d fold_mkdir_dirs_mono [of w ?ds] by simp
qed

lemma make_layout_counters [simp]:
  "n_reads (make_layout a cs w) = n_reads w" "n_clock (make_layout a cs w) = n_clock w"
  "tables (make_layout a cs w) = tables w"
  by (simp_all add: make_layout_def Let_def)

lemma keeps_lines_iff:
  "keeps_lines w w' p \<longleftrightarrow>
     (\<forall>old. files w p = Some old \<longrightarrow> (\<exists>more. files w' p = Some (old @ more)))"
proof (cases "files w p")
  case None
  then show ?thesis by (simp add: keeps_lines_def)
next
  case (Some old)
  have "take (length old) new = old \<longleftrightarrow> (\<exists>more. new = old @ more)" for new :: "entry list"
  proof
    assume "take (length old) new = old"
    then have "new = old @ drop (length old) new" by (metis append_take_drop_id)
    then show "\<exists>more. new = old @ more" ..
  next
    assume "\<exists>more. new = old @ more"
    then show "take (length old) new = old" by auto
  qed
  with Some show ?thesis by (auto simp: keeps_lines_def split: option.splits)
qed

lemma keeps_lines_refl: "files w' = files w \<Longrightarrow> keeps_lines w w' p"
  by (simp add: keeps_lines_iff)

lemma keeps_lines_trans: "keeps_lines w w1 p \<Longrightarrow> keeps_lines w1 w2 p \<Longrightarrow> keeps_lines w w2 p"
  by (fastforce simp: keeps_lines_iff)

lemma keeps_lines_append_jsonl: "keeps_lines w (append_jsonl q d w) p"
  by (auto simp: keeps_lines_iff)

lemma keeps_lines_make_layout: "p \<noteq> info_path a \<Longrightarrow> keeps_lines w (make_layout a cs w) p"
  by (auto simp: keeps_lines_iff make_layout_files)

subsection \<open>Camera configuration and opening\<close>

lemma parse_cam_specs_missing_eq:
  "\<exists>spec \<in> set specs. CHR ''='' \<notin> set spec \<Longrightarrow>
   \<exists>e. parse_cam_specs specs acc = Inl e \<and> is_ValueError e"
proof (induction specs arbitrary: acc)
  case Nil
  then show ?case by simp
next
  case (Cons spec rest)
  show ?case
  proof (cases "CHR ''='' \<in> set spec")
    case False
    then show ?thesis by simp
  next
    case True
    with Cons.prems have bad: "\<exists>s \<in> set rest. CHR ''='' \<notin> set s" by auto
    show ?thesis
    proof (cases "py_int (drop 1 (dropWhile (\<lambda>c. c \<noteq> CHR ''='') spec))")
      case None
      with True show ?thesis by simp
    next
      case (Some i)
      with True Cons.IH [OF bad] show ?thesis by (simp add: Let_def)
    qed
  qed
qed

lemma get_cam_specs_error: "get_cam_specs a = Inl e \<Longrightarrow> is_ValueError e"
proof -
  have p: "parse_cam_specs specs acc = Inl e \<Longrightarrow> is_ValueError e" for specs acc
    by (induction specs arbitrary: acc) (auto simp: Let_def split: if_splits option.splits)
  assume "get_cam_specs a = Inl e"
  then show ?thesis
    using p by (auto simp: get_cam_specs_def split: option.splits sum.splits if_splits)
qed

lemma update_fresh: "k \<notin> fst ` set al \<Longrightarrow> AList.update k v al = al @ [(k, v)]"
  by (induction al) auto

lemma parse_cam_specs_distinct:
  "parse_cam_specs specs acc = Inr cs \<Longrightarrow> distinct (map fst acc) \<Longrightarrow> distinct (map fst cs)"
proof (induction specs arbitrary: acc)
  case Nil
  then show ?case by simp
next
  case (Cons spec rest)
  then show ?case
    by (auto simp: Let_def distinct_update split: if_splits option.splits)
qed

lemma get_cam_specs_wf:
  assumes "get_cam_specs a = Inr cs"
  shows "distinct (map fst cs)" and "cs \<noteq> []"
proof -
  from assms show "cs \<noteq> []"
    by (auto simp: get_cam_specs_def split: sum.splits if_splits)
  show "distinct (map fst cs)"
  proof (cases "camera a")
    case None
    with assms show ?thesis by (auto simp: get_cam_specs_def split: if_splits)
  next
    case (Some specs)
    with assms have "parse_cam_specs specs [] = Inr cs"
      by (auto simp: get_cam_specs_def split: sum.splits if_splits)
    then show ?thesis by (rule parse_cam_specs_distinct) simp
  qed
qed

lemma open_cameras_frame:
  "open_cameras ev cs acc w = (r, w') \<Longrightarrow>
   files w' = files w \<and> dirs w' = dirs w \<and> tables w' = tables w \<and>
   n_reads w' = n_reads w \<and> n_clock w' = n_clock w \<and>
   (\<exists>evs. trace w' = trace w @ evs \<and> (\<forall>e \<in> set evs. is_open_event e))"
proof (induction cs arbitrary: acc w)
  case Nil
  then show ?case by simp
next
  case (Cons c cs)
  obtain name idx where c: "c = (name, idx)" by (cases c)
  show ?case
  proof (cases "can_open ev idx")
    case False
    with Cons.prems c show ?thesis by (auto simp: Let_def)
  next
    case True
    with Cons.prems c
    have "open_cameras ev cs (AList.update name idx acc) (emit (E_open name idx True) w) = (r, w')"
      by (simp add: Let_def)
    from Cons.IH [OF this] show ?thesis by auto
  qed
qed

lemma open_cameras_result:
  "open_cameras ev cs acc w = (Inr rs, w') \<Longrightarrow> distinct (map fst (acc @ cs)) \<Longrightarrow> rs = acc @ cs"
proof (induction cs arbitrary: acc w)
  case Nil
  then show ?case by simp
next
  case (Cons c cs)
  obtain name idx where c: "c = (name, idx)" by (cases c)
  from Cons.prems(2) c have fresh: "name \<notin> fst ` set acc" by auto
  from Cons.prems(1) c
  have run: "open_cameras ev cs (AList.update name idx acc) (emit (E_open name idx True) w) = (Inr rs, w')"
    by (auto simp: Let_def split: if_splits)
  have "rs = AList.update name idx acc @ cs"
    using run
  proof (rule Cons.IH)
    show "distinct (map fst (AList.update name idx acc @ cs))"
      using Cons.prems(2) c by (simp add: update_fresh [OF fresh])
  qed
  then show ?case using c by (simp add: update_fresh [OF fresh])
qed

lemma open_cameras_fail:
  "\<forall>(n, i) \<in> set pre. can_open ev i \<Longrightarrow> \<not> can_open ev idx \<Longrightarrow>
   \<exists>w'. open_cameras ev (pre @ (name, idx) # post) acc w = (Inl (RuntimeError_open idx), w') \<and>
        trace w' = trace w @ map (\<lambda>(n, i). E_open n i True) pre @ [E_open name idx False]"
proof (induction pre arbitrary: acc w)
  case Nil
  then show ?case by (simp add: Let_def)
next
  case (Cons c pre)
  obtain n i where c: "c = (n, i)" by (cases c)
  from Cons.prems c have ok: "can_open ev i" and rest: "\<forall>(n, i) \<in> set pre. can_open ev i"
    by auto
  from Cons.IH [OF rest Cons.prems(2), of "AList.update n i acc" "emit (E_open n i True) w"]
  show ?case using c ok by (auto simp: Let_def)
qed

lemma open_cameras_ok:
  "\<forall>(n, i) \<in> set cs. can_open ev i \<Longrightarrow> \<exists>rs w'. open_cameras ev cs acc w = (Inr rs, w')"
proof (induction cs arbitrary: acc w)
  case Nil
  then show ?case by simp
next
  case (Cons c cs)
  obtain n i where c: "c = (n, i)" by (cases c)
  from Cons.prems c have ok: "can_open ev i" and rest: "\<forall>(n, i) \<in> set cs. can_open ev i"
    by auto
  from Cons.IH [OF rest, of "AList.update n i acc" "emit (E_open n i True) w"]
  show ?case using c ok by (auto simp: Let_def)
qed

lemma open_cameras_all_ok:
  assumes "\<forall>(n, i) \<in> set cs. can_open ev i" and "distinct (map fst cs)"
  shows "fst (open_cameras ev cs [] w) = Inr cs"
proof -
  from open_cameras_ok [OF assms(1), of "[]" w] obtain rs w'
    where o: "open_cameras ev cs [] w = (Inr rs, w')" by blast
  from open_cameras_result [OF o] assms(2) have "rs = cs" by simp
  with o show ?thesis by simp
qed

lemma cameras_wf:
  assumes "get_cam_specs a = Inr cs" and "open_cameras ev cs [] w0 = (Inr rs, w1)"
  shows "rs = cs" and "distinct (map fst cs)" and "cs \<noteq> []"
proof -
  show d: "distinct (map fst cs)" and "cs \<noteq> []"
    using get_cam_specs_wf [OF assms(1)] by simp_all
  from open_cameras_result [OF assms(2)] d show "rs = cs" by simp
qed

lemma release_cameras_frame [simp]:
  "files (release_cameras rs w) = files w" "dirs (release_cameras rs w) = dirs w"
  "tables (release_cameras rs w) = tables w"
  "trace (release_cameras rs w) = trace w @ map (\<lambda>(n, i). E_release_camera n) rs"
  by (induction rs arbitrary: w; auto)+

subsection \<open>One pass of the loop\<close>

lemma read_all_frame:
  "read_all ev rs frames w = (ok, frames', w') \<Longrightarrow>
   files w' = files w \<and> dirs w' = dirs w \<and> tables w' = tables w \<and> n_clock w' = n_clock w \<and>
   (\<exists>evs. trace w' = trace w @ evs \<and> (\<forall>e \<in> set evs. is_read_event e))"
proof (induction rs arbitrary: frames w)
  case Nil
  then show ?case by simp
next
  case (Cons r rs)
  obtain name idx where r: "r = (name, idx)" by (cases r)
  obtain ok1 fr where c: "cam_read ev (n_reads w) = (ok1, fr)" by (cases "cam_read ev (n_reads w)")
  show ?case
  proof (cases ok1)
    case False
    with Cons.prems r c show ?thesis by (auto simp: Let_def)
  next
    case True
    with Cons.prems r c
    have "read_all ev rs (frames @ [fr]) (emit (E_read name True) (w\<lparr>n_reads := Suc (n_reads w)\<rparr>))
            = (ok, frames', w')"
      by (simp add: Let_def)
    from Cons.IH [OF this] show ?thesis by auto
  qed
qed

lemma read_all_ok_iff:
  "fst (read_all ev rs frames w) \<longleftrightarrow> (\<forall>k < length rs. fst (cam_read ev (n_reads w + k)))"
proof (induction rs arbitrary: frames w)
  case Nil
  show ?case by simp
next
  case (Cons r rs)
  obtain name idx where r: "r = (name, idx)" by (cases r)
  obtain ok1 fr where c: "cam_read ev (n_reads w) = (ok1, fr)" by (cases "cam_read ev (n_reads w)")
  show ?case
  proof (cases ok1)
    case False
    with r c have "\<not> fst (read_all ev (r # rs) frames w)" by (simp add: Let_def)
    moreover from False c have "\<not> (\<forall>k < length (r # rs). fst (cam_read ev (n_reads w + k)))"
      by (auto intro: exI [of _ 0])
    ultimately show ?thesis by blast
  next
    case True
    let ?w1 = "emit (E_read name True) (w\<lparr>n_reads := Suc (n_reads w)\<rparr>)"
    from True r c have "fst (read_all ev (r # rs) frames w) = fst (read_all ev rs (frames @ [fr]) ?w1)"
      by (simp add: Let_def)
    also have "\<dots> \<longleftrightarrow> (\<forall>k < length rs. fst (cam_read ev (Suc (n_reads w) + k)))"
      using Cons.IH [of "frames @ [fr]" ?w1] by simp
    also have "\<dots> \<longleftrightarrow> (\<forall>k < length (r # rs). fst (cam_read ev (n_reads w + k)))"
    proof
      assume h: "\<forall>k < length rs. fst (cam_read ev (Suc (n_reads w) + k))"
      show "\<forall>k < length (r # rs). fst (cam_read ev (n_reads w + k))"
      proof (intro allI impI)
        fix k assume "k < length (r # rs)"
        then show "fst (cam_read ev (n_reads w + k))"
          using h True c by (cases k) auto
      qed
    next
      assume h: "\<forall>k < length (r # rs). fst (cam_read ev (n_reads w + k))"
      show "\<forall>k < length rs. fst (cam_read ev (Suc (n_reads w) + k))"
      proof (intro allI impI)
        fix k assume "k < length rs"
        then have "Suc k < length (r # rs)" by simp
        with h have "fst (cam_read ev (n_reads w + Suc k))" by blast
        then show "fst (cam_read ev (Suc (n_reads w) + k))" by simp
      qed
    qed
    finally show ?thesis .
  qed
qed

lemma read_all_ok_length:
  "read_all ev rs frames w = (True, frames', w') \<Longrightarrow>
   length frames' = length frames + length rs \<and> n_reads w' = n_reads w + length rs"
proof (induction rs arbitrary: frames w)
  case Nil
  then show ?case by simp
next
  case (Cons r rs)
  obtain name idx where r: "r = (name, idx)" by (cases r)
  obtain ok1 fr where c: "cam_read ev (n_reads w) = (ok1, fr)" by (cases "cam_read ev (n_reads w)")
  from Cons.prems r c have ok1 by (auto simp: Let_def split: if_splits)
  with Cons.prems r c
  have "read_all ev rs (frames @ [fr]) (emit (E_read name True) (w\<lparr>n_reads := Suc (n_reads w)\<rparr>))
          = (True, frames', w')"
    by (simp add: Let_def)
  from Cons.IH [OF this] show ?case by simp
qed

lemma init_writers_frame:
  "init_writers a nm xs vws w = (vws', w') \<Longrightarrow>
   files w' = files w \<and> dirs w' = dirs w \<and> tables w' = tables w \<and>
   n_clock w' = n_clock w \<and> n_reads w' = n_reads w \<and>
   (\<exists>evs. trace w' = trace w @ evs \<and> (\<forall>e \<in> set evs. \<not> is_read_event e \<and> \<not> is_sleep_event e))"
proof (induction xs arbitrary: vws w)
  case Nil
  then show ?case by simp
next
  case (Cons x xs)
  obtain n fr where x: "x = (n, fr)" by (cases x)
  from Cons.prems x Cons.IH show ?case by (fastforce simp: Let_def)
qed

lemma write_frames_frame:
  "write_frames xs vws w = (err, vws', w') \<Longrightarrow>
   files w' = files w \<and> dirs w' = dirs w \<and> tables w' = tables w \<and>
   n_clock w' = n_clock w \<and> n_reads w' = n_reads w \<and>
   (\<exists>evs. trace w' = trace w @ evs \<and> (\<forall>e \<in> set evs. \<not> is_read_event e \<and> \<not> is_sleep_event e))"
proof (induction xs arbitrary: vws w)
  case Nil
  then show ?case by simp
next
  case (Cons x xs)
  obtain n fr where x: "x = (n, fr)" by (cases x)
  from Cons.prems x Cons.IH show ?case
    by (fastforce split: option.splits)
qed

lemma release_writers_frame:
  "release_writers vws w = (err, w') \<Longrightarrow>
   files w' = files w \<and> dirs w' = dirs w \<and> tables w' = tables w \<and>
   n_clock w' = n_clock w \<and> n_reads w' = n_reads w \<and>
   (\<exists>evs. trace w' = trace w @ evs \<and> (\<forall>e \<in> set evs. \<exists>p. e = E_release_writer p))"
proof (induction vws w rule: release_writers.induct)
  case (1 w)
  then show ?case by simp
next
  case (2 name rest w)
  then show ?case by simp
next
  case (3 name vw rest w)
  then show ?case by fastforce
qed

lemma pace_frame:
  "pace ev a ls fc w = (fl, w') \<Longrightarrow>
   files w' = files w \<and> dirs w' = dirs w \<and> tables w' = tables w \<and> n_reads w' = n_reads w \<and>
   n_clock w \<le> n_clock w' \<and>
   (\<exists>evs. trace w' = trace w @ evs \<and> (\<forall>e \<in> set evs. is_sleep_event e))"
  by (auto simp: pace_def now_def Let_def split: if_splits)

lemma pace_flow:
  "pace ev a ls fc w = (fl, w') \<Longrightarrow>
   (fl = Break \<and> min_frames a \<le> fc) \<or>
   (fl = Raise ZeroDivisionError \<and> fc < min_frames a \<and> fps a = 0) \<or>
   (fl = Next \<and> fc < min_frames a \<and> fps a \<noteq> 0)"
  by (auto simp: pace_def now_def Let_def split: if_splits)

lemma ensure_writers_frame:
  "ensure_writers a nm cs frames vws w = (vws', w') \<Longrightarrow>
   files w' = files w \<and> dirs w' = dirs w \<and> tables w' = tables w \<and>
   n_clock w' = n_clock w \<and> n_reads w' = n_reads w \<and>
   (\<exists>evs. trace w' = trace w @ evs \<and> (\<forall>e \<in> set evs. \<not> is_read_event e \<and> \<not> is_sleep_event e))"
  using init_writers_frame [of a nm "zip (map fst cs) frames" vws w vws' w']
  by (auto simp: ensure_writers_def split: if_splits)

lemma tick_failed_read:
  assumes "\<not> fst (read_all ev rs [] (snd (now ev w)))"
  shows "tick ev a cs rs nm st (s, w) = (Next, s, snd (snd (read_all ev rs [] (snd (now ev w)))))"
proof -
  obtain success frames w2 where r: "read_all ev rs [] (snd (now ev w)) = (success, frames, w2)"
    by (cases "read_all ev rs [] (snd (now ev w))")
  with assms have "\<not> success" by simp
  with r show ?thesis by (simp add: tick_def now_def Let_def)
qed

lemma tick_cases:
  assumes "tick ev a cs rs nm st (s, w) = (fl, s', w')"
  obtains
    (fail) frames where "read_all ev rs [] (snd (now ev w)) = (False, frames, w')"
      "fl = Next" "s' = s"
  | (raise) frames w2 vws w3 e vws' where
      "read_all ev rs [] (snd (now ev w)) = (True, frames, w2)"
      "ensure_writers a nm cs frames (vw_writers s) w2 = (vws, w3)"
      "write_frames (zip (map fst cs) frames) vws w3 = (Some e, vws', w')"
      "fl = Raise e" "s' = s\<lparr>vw_writers := vws'\<rparr>"
  | (ok) frames w2 vws w3 vws' w4 where
      "read_all ev rs [] (snd (now ev w)) = (True, frames, w2)"
      "ensure_writers a nm cs frames (vw_writers s) w2 = (vws, w3)"
      "write_frames (zip (map fst cs) frames) vws w3 = (None, vws', w4)"
      "s' = s\<lparr>vw_writers := vws',
               rows := rows s @ [\<lparr>timestamp = clock ev (n_clock w4) - st, frame = frame_count s\<rparr>],
               frame_count := frame_count s + 1\<rparr>"
      "pace ev a (clock ev (n_clock w)) (frame_count s + 1) (snd (now ev w4)) = (fl, w')"
proof -
  obtain success frames w2 where r: "read_all ev rs [] (snd (now ev w)) = (success, frames, w2)"
    by (cases "read_all ev rs [] (snd (now ev w))")
  show thesis
  proof (cases success)
    case False
    with assms r have "fl = Next" "s' = s" "w' = w2"
      by (simp_all add: tick_def now_def Let_def)
    with r False show thesis by (intro fail) simp_all
  next
    case True
    obtain vws w3 where e: "ensure_writers a nm cs frames (vw_writers s) w2 = (vws, w3)"
      by (cases "ensure_writers a nm cs frames (vw_writers s) w2")
    obtain err vws' w4 where wr: "write_frames (zip (map fst cs) frames) vws w3 = (err, vws', w4)"
      by (cases "write_frames (zip (map fst cs) frames) vws w3")
    show thesis
    proof (cases err)
      case (Some er)
      with assms r True e wr have "fl = Raise er" "s' = s\<lparr>vw_writers := vws'\<rparr>" "w' = w4"
        by (simp_all add: tick_def now_def Let_def)
      with r True e wr Some show thesis by (intro raise) simp_all
    next
      case None
      obtain fl1 w6 where p: "pace ev a (clock ev (n_clock w)) (frame_count s + 1) (snd (now ev w4)) = (fl1, w6)"
        by (cases "pace ev a (clock ev (n_clock w)) (frame_count s + 1) (snd (now ev w4))")
      with assms r True e wr None
      have "fl = fl1" "w' = w6"
        "s' = s\<lparr>vw_writers := vws',
               rows := rows s @ [\<lparr>timestamp = clock ev (n_clock w4) - st, frame = frame_count s\<rparr>],
               frame_count := frame_count s + 1\<rparr>"
        by (simp_all add: tick_def now_def Let_def)
      with r True e wr None p show thesis by (intro ok) simp_all
    qed
  qed
qed

lemma tick_frame:
  assumes "tick ev a cs rs nm st (s, w) = (fl, s', w')"
  shows "files w' = files w \<and> dirs w' = dirs w \<and> tables w' = tables w \<and>
         (\<exists>evs. trace w' = trace w @ evs)"
  using assms
proof (cases rule: tick_cases)
  case (fail frames)
  from read_all_frame [OF fail(1)] show ?thesis by auto
next
  case (raise frames w2 vws w3 e vws')
  from read_all_frame [OF raise(1)] ensure_writers_frame [OF raise(2)] write_frames_frame [OF raise(3)]
  show ?thesis by auto
next
  case (ok frames w2 vws w3 vws' w4)
  from read_all_frame [OF ok(1)] ensure_writers_frame [OF ok(2)] write_frames_frame [OF ok(3)]
    pace_frame [OF ok(5)]
  show ?thesis by auto
qed

lemma tick_failed:
  assumes "\<exists>k < length rs. \<not> fst (cam_read ev (n_reads w + k))"
  shows "\<exists>wb evs. tick ev a cs rs nm st (s, w) = (Next, s, wb) \<and> trace wb = trace w @ evs \<and>
                  (\<forall>e \<in> set evs. is_read_event e)"
proof -
  from assms have "\<not> fst (read_all ev rs [] (snd (now ev w)))"
    by (simp add: read_all_ok_iff)
  from tick_failed_read [OF this]
  have t: "tick ev a cs rs nm st (s, w) = (Next, s, snd (snd (read_all ev rs [] (snd (now ev w)))))" .
  obtain ok frames wb where r: "read_all ev rs [] (snd (now ev w)) = (ok, frames, wb)"
    by (cases "read_all ev rs [] (snd (now ev w))")
  from read_all_frame [OF r] obtain evs where "trace wb = trace w @ evs" "\<forall>e \<in> set evs. is_read_event e"
    by auto
  with t r show ?thesis by auto
qed

lemma tick_frame_count:
  assumes "tick ev a cs rs nm st (s, w) = (fl, s', w')"
  shows "(frame_count s' = frame_count s \<and> rows s' = rows s \<and> fl \<noteq> Break) \<or>
         (frame_count s' = frame_count s + 1 \<and> (fl = Break \<longleftrightarrow> min_frames a \<le> frame_count s'))"
  using assms
proof (cases rule: tick_cases)
  case (fail frames)
  then show ?thesis by simp
next
  case (raise frames w2 vws w3 e vws')
  then show ?thesis by simp
next
  case (ok frames w2 vws w3 vws' w4)
  from pace_flow [OF ok(5)] ok(4) show ?thesis by auto
qed

lemma tick_rows:
  assumes "tick ev a cs rs nm st (s, w) = (fl, s', w')"
  shows "n_clock w < n_clock w' \<and>
         (rows s' = rows s \<and> frame_count s' = frame_count s \<or>
          (\<exists>k. n_clock w < k \<and> k < n_clock w' \<and>
               rows s' = rows s @ [\<lparr>timestamp = clock ev k - st, frame = frame_count s\<rparr>] \<and>
               frame_count s' = frame_count s + 1))"
  using assms
proof (cases rule: tick_cases)
  case (fail frames)
  from read_all_frame [OF fail(1)] fail(3) show ?thesis by simp
next
  case (raise frames w2 vws w3 e vws')
  from read_all_frame [OF raise(1)] ensure_writers_frame [OF raise(2)]
    write_frames_frame [OF raise(3)] raise(5)
  show ?thesis by simp
next
  case (ok frames w2 vws w3 vws' w4)
  from read_all_frame [OF ok(1)] ensure_writers_frame [OF ok(2)] write_frames_frame [OF ok(3)]
  have k: "n_clock w4 = Suc (n_clock w)" by simp
  from pace_frame [OF ok(5)] have "Suc (n_clock w4) \<le> n_clock w'" by simp
  with k ok(4) show ?thesis by auto
qed

subsection \<open>The writers and the row buffer\<close>

lemma init_writers_result:
  "init_writers a nm xs vws w = (vws', w') \<Longrightarrow> set (map fst xs) \<subseteq> set (map fst vws) \<Longrightarrow>
   map fst vws' = map fst vws \<and>
   (\<forall>n \<in> set (map fst xs). \<exists>vw. map_of vws' n = Some (Some vw) \<and> vw_frames vw = []) \<and>
   (\<forall>n. n \<notin> set (map fst xs) \<longrightarrow> map_of vws' n = map_of vws n)"
proof (induction xs arbitrary: vws w)
  case Nil
  then show ?case by simp
next
  case (Cons x xs)
  obtain n fr where x: "x = (n, fr)" by (cases x)
  let ?v = "init_video_writer (video_dir a n @ [nm @ ''.mp4'']) (fps a) (shape fr)"
  let ?vws1 = "AList.update n (Some ?v) vws"
  from Cons.prems(2) x have n_in: "n \<in> set (map fst vws)" by simp
  then have keys1: "map fst ?vws1 = map fst vws" by (simp add: update_keys)
  from Cons.prems(1) x
  have run: "init_writers a nm xs ?vws1 (emit (E_init_writer n (video_dir a n @ [nm @ ''.mp4''])) w)
               = (vws', w')"
    by (simp add: Let_def)
  have sub: "set (map fst xs) \<subseteq> set (map fst ?vws1)"
    using Cons.prems(2) keys1 by simp
  note ih = Cons.IH [OF run sub]
  have v0: "vw_frames ?v = []"
    by (cases "shape fr") (simp add: init_video_writer_def)
  have m1: "map_of ?vws1 = (map_of vws)(n \<mapsto> Some ?v)" by (rule update_conv')
  show ?case
  proof (intro conjI ballI allI impI)
    show "map fst vws' = map fst vws" using ih keys1 by simp
  next
    fix k assume "k \<in> set (map fst (x # xs))"
    show "\<exists>vw. map_of vws' k = Some (Some vw) \<and> vw_frames vw = []"
    proof (cases "k \<in> set (map fst xs)")
      case True
      with ih show ?thesis by blast
    next
      case False
      with \<open>k \<in> set (map fst (x # xs))\<close> x have "k = n" by simp
      with False ih have "map_of vws' k = map_of ?vws1 n" by blast
      with m1 v0 show ?thesis by simp
    qed
  next
    fix k assume "k \<notin> set (map fst (x # xs))"
    with x have "k \<noteq> n" "k \<notin> set (map fst xs)" by auto
    with ih m1 show "map_of vws' k = map_of vws k" by simp
  qed
qed

lemma write_frames_result:
  "distinct (map fst xs) \<Longrightarrow>
   \<forall>n \<in> set (map fst xs). \<exists>vw. map_of vws n = Some (Some vw) \<and> length (vw_frames vw) = k \<Longrightarrow>
   \<exists>vws' w'. write_frames xs vws w = (None, vws', w') \<and> map fst vws' = map fst vws \<and>
     (\<forall>n \<in> set (map fst xs). \<exists>vw. map_of vws' n = Some (Some vw) \<and> length (vw_frames vw) = Suc k) \<and>
     (\<forall>n. n \<notin> set (map fst xs) \<longrightarrow> map_of vws' n = map_of vws n)"
proof (induction xs arbitrary: vws w)
  case Nil
  then show ?case by simp
next
  case (Cons x xs)
  obtain n fr where x: "x = (n, fr)" by (cases x)
  from Cons.prems(2) x obtain vw where vw: "map_of vws n = Some (Some vw)" "length (vw_frames vw) = k"
    by auto
  let ?v = "vw\<lparr>vw_frames := vw_frames vw @ [fr]\<rparr>"
  let ?vws1 = "AList.update n (Some ?v) vws"
  let ?w1 = "emit (E_write n fr) w"
  from vw(1) have "n \<in> set (map fst vws)" by (metis map_of_eq_None_iff option.distinct(1) set_map)
  then have keys1: "map fst ?vws1 = map fst vws" by (simp add: update_keys)
  have m1: "map_of ?vws1 = (map_of vws)(n \<mapsto> Some ?v)" by (rule update_conv')
  from Cons.prems(1) x have d: "distinct (map fst xs)" and fresh: "n \<notin> set (map fst xs)" by auto
  have pre: "\<forall>m \<in> set (map fst xs). \<exists>vw. map_of ?vws1 m = Some (Some vw) \<and> length (vw_frames vw) = k"
    using Cons.prems(2) fresh m1 by auto
  from Cons.IH [OF d pre, of ?w1] obtain vws' w' where
    run: "write_frames xs ?vws1 ?w1 = (None, vws', w')" and keys: "map fst vws' = map fst ?vws1"
    and upd: "\<forall>m \<in> set (map fst xs). \<exists>vw. map_of vws' m = Some (Some vw) \<and> length (vw_frames vw) = Suc k"
    and rest: "\<forall>m. m \<notin> set (map fst xs) \<longrightarrow> map_of vws' m = map_of ?vws1 m"
    by blast
  have "write_frames (x # xs) vws w = (None, vws', w')"
    using x vw(1) run by simp
  moreover have "map fst vws' = map fst vws" using keys keys1 by simp
  moreover have "\<forall>m \<in> set (map fst (x # xs)).
      \<exists>vw. map_of vws' m = Some (Some vw) \<and> length (vw_frames vw) = Suc k"
  proof
    fix m assume "m \<in> set (map fst (x # xs))"
    show "\<exists>vw. map_of vws' m = Some (Some vw) \<and> length (vw_frames vw) = Suc k"
    proof (cases "m \<in> set (map fst xs)")
      case True
      with upd show ?thesis by blast
    next
      case False
      with \<open>m \<in> set (map fst (x # xs))\<close> x have "m = n" by simp
      with False rest have "map_of vws' m = map_of ?vws1 n" by blast
      with m1 vw(2) show ?thesis by simp
    qed
  qed
  moreover have "\<forall>m. m \<notin> set (map fst (x # xs)) \<longrightarrow> map_of vws' m = map_of vws m"
    using rest m1 x by auto
  ultimately show ?case by blast
qed

lemma consistent_init: "consistent cs (init_ep_state cs)"
proof -
  have key: "map_of (map (\<lambda>name. (name, None :: video_writer option)) ns) n = Some None"
    if "n \<in> set ns" for ns :: "string list" and n
    using that by (induction ns) auto
  have "\<forall>n \<in> set (map fst cs). map_of (vw_writers (init_ep_state cs)) n = Some None"
  proof
    fix n assume "n \<in> set (map fst cs)"
    then show "map_of (vw_writers (init_ep_state cs)) n = Some None"
      unfolding init_ep_state_def by (simp only: ep_state.simps key)
  qed
  moreover have "map fst (vw_writers (init_ep_state cs)) = map fst cs"
    by (simp add: init_ep_state_def comp_def)
  moreover have "rows (init_ep_state cs) = []" "frame_count (init_ep_state cs) = 0"
    by (simp_all add: init_ep_state_def)
  ultimately show ?thesis unfolding consistent_def by simp
qed

lemma consistent_frames_written:
  "consistent cs s \<Longrightarrow> n \<in> set (map fst cs) \<Longrightarrow> frames_written s n = length (rows s)"
  by (auto simp: consistent_def frames_written_def)

lemma ensure_writers_result:
  assumes c: "consistent cs s" and d: "distinct (map fst cs)"
    and len: "length frames = length cs"
    and e: "ensure_writers a nm cs frames (vw_writers s) w = (vws, w3)"
  shows "map fst vws = map fst cs \<and>
         (\<forall>n \<in> set (map fst cs).
            \<exists>vw. map_of vws n = Some (Some vw) \<and> length (vw_frames vw) = length (rows s))"
proof -
  from c have keys: "map fst (vw_writers s) = map fst cs" by (simp add: consistent_def)
  with d have dk: "distinct (map fst (vw_writers s))" by simp
  have zip_keys: "map fst (zip (map fst cs) frames) = map fst cs"
    using len by (simp add: map_fst_zip)
  show ?thesis
  proof (cases "\<exists>vw \<in> set (map snd (vw_writers s)). vw = None")
    case True
    then obtain n where n: "(n, None) \<in> set (vw_writers s)" by auto
    then have n_key: "n \<in> set (map fst cs)" using keys by (metis fst_conv image_eqI set_map)
    from dk n have "map_of (vw_writers s) n = Some None" by (rule map_of_is_SomeI)
    with c n_key have r: "rows s = []" by (auto simp: consistent_def)
    from e True
    have "init_writers a nm (zip (map fst cs) frames) (vw_writers s) w = (vws, w3)"
      by (simp add: ensure_writers_def)
    from init_writers_result [OF this] zip_keys keys r show ?thesis by simp
  next
    case False
    with e have v: "vws = vw_writers s" by (simp add: ensure_writers_def)
    have "\<exists>vw. map_of (vw_writers s) n = Some (Some vw) \<and> length (vw_frames vw) = length (rows s)"
      if "n \<in> set (map fst cs)" for n
    proof -
      have "map_of (vw_writers s) n \<noteq> Some None"
      proof
        assume "map_of (vw_writers s) n = Some None"
        then have "(n, None) \<in> set (vw_writers s)" by (rule map_of_SomeD)
        then have "None \<in> set (map snd (vw_writers s))" by force
        with False show False by blast
      qed
      with c that show ?thesis by (auto simp: consistent_def)
    qed
    with v keys show ?thesis by simp
  qed
qed

lemma tick_consistent:
  assumes c: "consistent cs s" and d: "distinct (map fst cs)" and len: "length rs = length cs"
    and t: "tick ev a cs rs nm st (s, w) = (fl, s', w')"
  shows "consistent cs s' \<and>
         (fl = Next \<or> fl = Break \<or> (fl = Raise ZeroDivisionError \<and> fps a = 0))"
  using t
proof (cases rule: tick_cases)
  case (fail frames)
  with c show ?thesis by simp
next
  case (raise frames w2 vws w3 e vws')
  from read_all_ok_length [OF raise(1)] len have fl: "length frames = length cs" by simp
  then have zk: "map fst (zip (map fst cs) frames) = map fst cs" by (simp add: map_fst_zip)
  from ensure_writers_result [OF c d fl raise(2)] zk d
  have "\<exists>vws' w'. write_frames (zip (map fst cs) frames) vws w3 = (None, vws', w')"
    using write_frames_result [of "zip (map fst cs) frames" vws "length (rows s)" w3] by auto
  with raise(3) show ?thesis by simp
next
  case (ok frames w2 vws w3 vws' w4)
  from read_all_ok_length [OF ok(1)] len have fl: "length frames = length cs" by simp
  then have zk: "map fst (zip (map fst cs) frames) = map fst cs" by (simp add: map_fst_zip)
  from ensure_writers_result [OF c d fl ok(2)]
  have k: "map fst vws = map fst cs"
    and pre: "\<forall>n \<in> set (map fst cs).
       \<exists>vw. map_of vws n = Some (Some vw) \<and> length (vw_frames vw) = length (rows s)"
    by simp_all
  from write_frames_result [of "zip (map fst cs) frames" vws "length (rows s)" w3] zk d pre ok(3)
  have k': "map fst vws' = map fst vws"
    and post: "\<forall>n \<in> set (map fst cs).
       \<exists>vw. map_of vws' n = Some (Some vw) \<and> length (vw_frames vw) = Suc (length (rows s))"
    by auto
  from c have "frame_count s = int (length (rows s))" by (simp add: consistent_def)
  with k k' post have "consistent cs s'"
    unfolding ok(4) consistent_def by simp
  with pace_flow [OF ok(5)] show ?thesis by auto
qed

lemma tick_all_ok:
  assumes allok: "\<forall>k < length rs. fst (cam_read ev (n_reads w + k))"
    and c: "consistent cs s" and d: "distinct (map fst cs)" and len: "length rs = length cs"
    and t: "tick ev a cs rs nm st (s, w) = (fl, s', w')"
  shows "frame_count s' = frame_count s + 1 \<and> consistent cs s' \<and>
         n_reads w' = n_reads w + length rs \<and>
         (fl = Break \<and> min_frames a \<le> frame_count s' \<or>
          fl = Raise ZeroDivisionError \<and> fps a = 0 \<or>
          fl = Next \<and> frame_count s' < min_frames a)"
proof -
  have ok: "fst (read_all ev rs [] (snd (now ev w)))"
    using allok by (simp add: read_all_ok_iff)
  from tick_consistent [OF c d len t] have c': "consistent cs s'"
    by simp
  from t show ?thesis
  proof (cases rule: tick_cases)
    case (fail frames)
    with ok show ?thesis by simp
  next
    case (raise frames w2 vws w3 e vws')
    from read_all_ok_length [OF raise(1)] len have fl: "length frames = length cs" by simp
    then have zk: "map fst (zip (map fst cs) frames) = map fst cs" by (simp add: map_fst_zip)
    from ensure_writers_result [OF c d fl raise(2)] zk d
    have "\<exists>vws' w'. write_frames (zip (map fst cs) frames) vws w3 = (None, vws', w')"
      using write_frames_result [of "zip (map fst cs) frames" vws "length (rows s)" w3] by auto
    with raise(3) show ?thesis by simp
  next
    case (ok frames w2 vws w3 vws' w4)
    from read_all_ok_length [OF ok(1)] ensure_writers_frame [OF ok(2)]
      write_frames_frame [OF ok(3)] pace_frame [OF ok(5)]
    have "n_reads w' = n_reads w + length rs" by simp
    with pace_flow [OF ok(5)] ok(4) c' show ?thesis by auto
  qed
qed

subsection \<open>The loop of an episode\<close>

lemma bitlen_pos:
  assumes "0 < n"
  shows "0 < bitlen n"
proof (rule ccontr)
  assume "\<not> 0 < bitlen n"
  then have "nat (bitlen n) = 0" by simp
  with bitlen_bounds [OF assms] have "n < 1" by simp
  with assms show False by simp
qed

lemma float_exponent_bounds:
  assumes "0 < x"
  shows "pow2 (float_exponent x) \<le> x \<and> x < pow2 (float_exponent x + 1)"
proof (cases "1 \<le> x")
  case True
  define n where "n = \<lfloor>x\<rfloor>"
  have n: "0 < n" using True by (simp add: n_def)
  from bitlen_bounds [OF n] have b: "2 ^ nat (bitlen n - 1) \<le> n" "n < 2 ^ nat (bitlen n)"
    by simp_all
  have bp: "0 < bitlen n" using n by (rule bitlen_pos)
  have "real_of_int (2 ^ nat (bitlen n - 1)) \<le> real_of_int n" using b(1) by linarith
  also have "\<dots> \<le> x" by (simp add: n_def)
  finally have lo: "2 ^ nat (bitlen n - 1) \<le> x" by simp
  have "n + 1 \<le> 2 ^ nat (bitlen n)" using b(2) by simp
  then have "real_of_int (n + 1) \<le> real_of_int (2 ^ nat (bitlen n))" by linarith
  moreover have "x < real_of_int (n + 1)" by (simp add: n_def)
  ultimately have hi: "x < 2 ^ nat (bitlen n)" by simp
  from lo hi bp True show ?thesis
    by (simp add: float_exponent_def pow2_def n_def [symmetric])
next
  case False
  define m where "m = \<lceil>1 / x\<rceil> - 1"
  from False assms have "1 < 1 / x" by simp
  then have m: "0 < m" unfolding m_def by linarith
  from bitlen_bounds [OF m] have b: "2 ^ nat (bitlen m - 1) \<le> m" "m < 2 ^ nat (bitlen m)"
    by simp_all
  have bp: "0 < bitlen m" using m by (rule bitlen_pos)
  have "real_of_int m < 1 / x" unfolding m_def by linarith
  moreover have "real_of_int (2 ^ nat (bitlen m - 1)) \<le> real_of_int m" using b(1) by linarith
  ultimately have "real_of_int (2 ^ nat (bitlen m - 1)) < 1 / x" by linarith
  then have "2 ^ nat (bitlen m - 1) < 1 / x" by simp
  then have hi: "x < 1 / 2 ^ nat (bitlen m - 1)"
    using assms by (simp add: field_simps)
  have "m + 1 \<le> 2 ^ nat (bitlen m)" using b(2) by simp
  then have "real_of_int (m + 1) \<le> real_of_int (2 ^ nat (bitlen m))" by linarith
  moreover have "1 / x \<le> real_of_int (m + 1)" unfolding m_def by simp
  ultimately have "1 / x \<le> 2 ^ nat (bitlen m)" by simp
  then have lo: "1 / 2 ^ nat (bitlen m) \<le> x"
    using assms by (simp add: field_simps)
  have e: "float_exponent x = - bitlen m" using False by (simp add: float_exponent_def m_def)
  show ?thesis
  proof (cases "bitlen m = 1")
    case True
    with lo hi show ?thesis unfolding e by (simp add: pow2_def)
  next
    case F: False
    with bp have "1 < bitlen m" by simp
    then have "nat (- (- bitlen m + 1)) = nat (bitlen m - 1)" "\<not> 0 \<le> - bitlen m + 1"
      "\<not> 0 \<le> - bitlen m" by simp_all
    with lo hi show ?thesis unfolding e by (simp add: pow2_def)
  qed
qed

lemma round_double_zero: "round_double 0 = Finite 0"
  by (simp add: round_double_def)

lemma max_frames_fps_zero: "fps a = 0 \<Longrightarrow> max_frames a = 0"
  by (cases "duration a")
    (simp_all add: max_frames_def max_frames_py_def int_to_float_def round_double_zero)

lemma max_frames_py_Inr: "max_frames_py a = Inr mx \<Longrightarrow> max_frames a = mx"
  by (simp add: max_frames_def)

lemma episode_loop_frame:
  "episode_loop n ev a cs rs nm st (s, w) = (ex, s', w') \<Longrightarrow>
   files w' = files w \<and> dirs w' = dirs w \<and> tables w' = tables w \<and>
   (\<exists>evs. trace w' = trace w @ evs)"
proof (induction n arbitrary: s w)
  case 0
  then show ?case by (auto split: if_splits)
next
  case (Suc n)
  show ?case
  proof (cases "frame_count s < max_frames a")
    case False
    with Suc.prems show ?thesis by auto
  next
    case True
    obtain fl s1 w1 where t: "tick ev a cs rs nm st (s, w) = (fl, s1, w1)"
      by (cases "tick ev a cs rs nm st (s, w)")
    note f = tick_frame [OF t]
    show ?thesis
    proof (cases fl)
      case Next
      with Suc.prems True t have "episode_loop n ev a cs rs nm st (s1, w1) = (ex, s', w')"
        by simp
      from Suc.IH [OF this] f show ?thesis by auto
    next
      case Break
      with Suc.prems True t f show ?thesis by auto
    next
      case (Raise e)
      with Suc.prems True t f show ?thesis by auto
    qed
  qed
qed

lemma reach_consistent:
  assumes "loop_reach ev a cs rs nm st sw0 c"
    and "consistent cs (fst sw0)" and "distinct (map fst cs)" and "length rs = length cs"
  shows "consistent cs (fst (snd c)) \<and> (fst c = Next \<or> fst c = Break)"
  using assms
proof (induction rule: loop_reach.induct)
  case reach_start
  then show ?case by simp
next
  case (reach_step sw c)
  obtain s w where sw: "sw = (s, w)" by (cases sw)
  obtain fl s' w' where c: "c = (fl, s', w')" by (cases c)
  from reach_step.IH reach_step.prems sw have cs: "consistent cs s" by simp
  from reach_step.hyps(3) sw c have t: "tick ev a cs rs nm st (s, w) = (fl, s', w')" by simp
  from tick_consistent [OF cs reach_step.prems(2,3) t]
  have c': "consistent cs s'"
    and f: "fl = Next \<or> fl = Break \<or> (fl = Raise ZeroDivisionError \<and> fps a = 0)"
    by simp_all
  from cs have "0 \<le> frame_count s" by (simp add: consistent_def)
  with reach_step.hyps(2) sw have "fps a \<noteq> 0"
    using max_frames_fps_zero [of a] by auto
  with f c' c show ?case by auto
qed

lemma reach_bounds:
  assumes "loop_reach ev a cs rs nm st sw0 c"
    and "0 \<le> frame_count (fst sw0)" and "frame_count (fst sw0) \<le> max_frames a"
  shows "0 \<le> frame_count (fst (snd c)) \<and> frame_count (fst (snd c)) \<le> max_frames a \<and>
         (fst c = Break \<longrightarrow> min_frames a \<le> frame_count (fst (snd c)))"
  using assms
proof (induction rule: loop_reach.induct)
  case reach_start
  then show ?case by simp
next
  case (reach_step sw c)
  obtain s w where sw: "sw = (s, w)" by (cases sw)
  obtain fl s' w' where c: "c = (fl, s', w')" by (cases c)
  from reach_step.hyps(3) sw c have t: "tick ev a cs rs nm st (s, w) = (fl, s', w')" by simp
  from reach_step.IH reach_step.prems sw have "0 \<le> frame_count s" by simp
  with tick_frame_count [OF t] reach_step.hyps(2) sw c show ?case by auto
qed

lemma episode_loop_reach:
  assumes "episode_loop n ev a cs rs nm st sw = (Some ex, s', w')"
    and "loop_reach ev a cs rs nm st sw0 (Next, sw)"
  shows "\<exists>fl. loop_reach ev a cs rs nm st sw0 (fl, s', w') \<and>
              (case ex of
                 Bound_reached \<Rightarrow> fl = Next \<and> \<not> frame_count s' < max_frames a
               | Min_frames_reached \<Rightarrow> fl = Break
               | Loop_raised e \<Rightarrow> fl = Raise e)"
  using assms
proof (induction n arbitrary: sw)
  case 0
  then show ?case by (cases sw) (auto split: if_splits)
next
  case (Suc n)
  show ?case
  proof (cases "frame_count (fst sw) < max_frames a")
    case False
    with Suc.prems show ?thesis by (cases sw) auto
  next
    case True
    obtain fl sw1 where t: "tick ev a cs rs nm st sw = (fl, sw1)"
      by (cases "tick ev a cs rs nm st sw")
    from Suc.prems(2) True t have r1: "loop_reach ev a cs rs nm st sw0 (fl, sw1)"
      by (rule reach_step)
    show ?thesis
    proof (cases fl)
      case Next
      with Suc.prems(1) True t
      have "episode_loop n ev a cs rs nm st sw1 = (Some ex, s', w')" by simp
      from Suc.IH [OF this] r1 Next show ?thesis by simp
    next
      case Break
      with Suc.prems(1) True t r1 show ?thesis by auto
    next
      case (Raise e)
      with Suc.prems(1) True t r1 show ?thesis by auto
    qed
  qed
qed

lemma loop_all_ok:
  assumes d: "distinct (map fst cs)" and len: "length rs = length cs"
  shows "consistent cs s \<Longrightarrow> \<forall>n \<ge> n_reads w. fst (cam_read ev n) \<Longrightarrow>
    nat (max_frames a - frame_count s) \<le> n \<Longrightarrow>
    \<exists>ex s' w'. episode_loop n ev a cs rs nm st (s, w) = (Some ex, s', w') \<and>
      (ex = Bound_reached \<or> ex = Min_frames_reached) \<and>
      frame_count s' =
        (if max_frames a \<le> frame_count s then frame_count s
         else min (max (min_frames a) (frame_count s + 1)) (max_frames a))"
proof (induction n arbitrary: s w)
  case 0
  then show ?case by simp
next
  case (Suc n)
  show ?case
  proof (cases "frame_count s < max_frames a")
    case False
    then show ?thesis by simp
  next
    case True
    obtain fl s1 w1 where t: "tick ev a cs rs nm st (s, w) = (fl, s1, w1)"
      by (cases "tick ev a cs rs nm st (s, w)")
    from Suc.prems(2) have now_ok: "\<forall>k < length rs. fst (cam_read ev (n_reads w + k))"
      by simp
    from tick_all_ok [OF now_ok Suc.prems(1) d len t]
    have fc: "frame_count s1 = frame_count s + 1" and c1: "consistent cs s1"
      and nr: "n_reads w1 = n_reads w + length rs"
      and f: "fl = Break \<and> min_frames a \<le> frame_count s1 \<or>
              fl = Raise ZeroDivisionError \<and> fps a = 0 \<or>
              fl = Next \<and> frame_count s1 < min_frames a"
      by blast+
    from Suc.prems(2) nr have later_ok: "\<forall>n \<ge> n_reads w1. fst (cam_read ev n)"
      by simp
    from Suc.prems(1) have nn: "0 \<le> frame_count s" by (simp add: consistent_def)
    with True have "fps a \<noteq> 0" using max_frames_fps_zero [of a] by auto
    with f consider (brk) "fl = Break" "min_frames a \<le> frame_count s1"
      | (nxt) "fl = Next" "frame_count s1 < min_frames a"
      by blast
    then show ?thesis
    proof cases
      case brk
      with True t fc show ?thesis by auto
    next
      case nxt
      from Suc.prems(3) True fc have "nat (max_frames a - frame_count s1) \<le> n" by simp
      from Suc.IH [OF c1 later_ok this] obtain ex s' w' where
        r: "episode_loop n ev a cs rs nm st (s1, w1) = (Some ex, s', w')"
          "ex = Bound_reached \<or> ex = Min_frames_reached"
          "frame_count s' =
             (if max_frames a \<le> frame_count s1 then frame_count s1
              else min (max (min_frames a) (frame_count s1 + 1)) (max_frames a))"
        by blast
      have "episode_loop (Suc n) ev a cs rs nm st (s, w) = (Some ex, s', w')"
        using True t nxt(1) r(1) by simp
      moreover have "frame_count s' = min (max (min_frames a) (frame_count s + 1)) (max_frames a)"
        using r(3) fc nxt(2) True by auto
      ultimately show ?thesis using r(2) True by auto
    qed
  qed
qed

lemma loop_all_fail:
  assumes "\<forall>n. \<not> fst (cam_read ev n)" and "rs \<noteq> []" and "frame_count s < max_frames a"
  shows "\<exists>w'. episode_loop n ev a cs rs nm st (s, w) = (None, s, w')"
  using assms(3)
proof (induction n arbitrary: w)
  case 0
  then show ?case by simp
next
  case (Suc n)
  have "\<exists>k < length rs. \<not> fst (cam_read ev (n_reads w + k))"
    using assms(1,2) by (intro exI [of _ 0]) simp
  from tick_failed [OF this, of a cs nm st s] obtain wb where
    t: "tick ev a cs rs nm st (s, w) = (Next, s, wb)" by blast
  from Suc.IH [OF Suc.prems, of wb] obtain w' where
    "episode_loop n ev a cs rs nm st (s, wb) = (None, s, w')" ..
  with t Suc.prems show ?case by simp
qed

lemma reach_rows:
  assumes "loop_reach ev a cs rs nm st sw0 c"
    and "rows (fst sw0) = []" and "frame_count (fst sw0) = 0"
  shows "frame_count (fst (snd c)) = int (length (rows (fst (snd c)))) \<and>
         map frame (rows (fst (snd c))) = map int [0..<length (rows (fst (snd c)))] \<and>
         (\<exists>ks. map timestamp (rows (fst (snd c))) = map (\<lambda>k. clock ev k - st) ks \<and>
               sorted_wrt (<) ks \<and> (\<forall>k \<in> set ks. k < n_clock (snd (snd c))))"
  using assms
proof (induction rule: loop_reach.induct)
  case reach_start
  then show ?case by simp
next
  case (reach_step sw c)
  obtain s w where sw: "sw = (s, w)" by (cases sw)
  obtain fl s' w' where c: "c = (fl, s', w')" by (cases c)
  from reach_step.IH reach_step.prems sw obtain ks where
    ih: "frame_count s = int (length (rows s))" "map frame (rows s) = map int [0..<length (rows s)]"
      "map timestamp (rows s) = map (\<lambda>k. clock ev k - st) ks" "sorted_wrt (<) ks"
      "\<forall>k \<in> set ks. k < n_clock w"
    by auto
  from reach_step.hyps(3) sw c have t: "tick ev a cs rs nm st (s, w) = (fl, s', w')" by simp
  from tick_rows [OF t] have lt: "n_clock w < n_clock w'" by simp
  from tick_rows [OF t] consider
    (same) "rows s' = rows s" "frame_count s' = frame_count s"
    | (more) k where "n_clock w < k" "k < n_clock w'"
        "rows s' = rows s @ [\<lparr>timestamp = clock ev k - st, frame = frame_count s\<rparr>]"
        "frame_count s' = frame_count s + 1"
    by blast
  then show ?case
  proof cases
    case same
    from ih(5) lt have 5: "\<forall>k \<in> set ks. k < n_clock w'" by auto
    have "map timestamp (rows s') = map (\<lambda>k. clock ev k - st) ks \<and>
          sorted_wrt (<) ks \<and> (\<forall>k \<in> set ks. k < n_clock w')"
      using same(1) ih(3,4) 5 by simp
    then have "\<exists>ks. map timestamp (rows s') = map (\<lambda>k. clock ev k - st) ks \<and>
          sorted_wrt (<) ks \<and> (\<forall>k \<in> set ks. k < n_clock w')" ..
    moreover have "frame_count s' = int (length (rows s'))" using same ih(1) by simp
    moreover have "map frame (rows s') = map int [0..<length (rows s')]" using same ih(2) by simp
    ultimately show ?thesis unfolding c by simp
  next
    case (more k)
    have 1: "frame_count s' = int (length (rows s'))" using more(3,4) ih(1) by simp
    have 2: "map frame (rows s') = map int [0..<length (rows s')]"
      using more(3) ih(1,2) by simp
    have 3: "map timestamp (rows s') = map (\<lambda>k. clock ev k - st) (ks @ [k])"
      using more(3) ih(3) by simp
    have 4: "sorted_wrt (<) (ks @ [k])"
      using ih(4,5) more(1) by (auto simp: sorted_wrt_append)
    have 5: "\<forall>j \<in> set (ks @ [k]). j < n_clock w'"
      using ih(5) lt more(2) by auto
    from 3 4 5 have "map timestamp (rows s') = map (\<lambda>k. clock ev k - st) (ks @ [k]) \<and>
          sorted_wrt (<) (ks @ [k]) \<and> (\<forall>j \<in> set (ks @ [k]). j < n_clock w')"
      by blast
    then have "\<exists>ks. map timestamp (rows s') = map (\<lambda>k. clock ev k - st) ks \<and>
          sorted_wrt (<) ks \<and> (\<forall>k \<in> set ks. k < n_clock w')" ..
    with 1 2 show ?thesis unfolding c by simp
  qed
qed

subsection \<open>Sleeps and failed reads\<close>

lemma no_sleep_append:
  "no_sleep_after_failed_read f (xs @ ys) =
     (no_sleep_after_failed_read f xs \<and> no_sleep_after_failed_read (failed_pending f xs) ys)"
  by (induction f xs rule: no_sleep_after_failed_read.induct) simp_all

lemma failed_pending_append:
  "failed_pending f (xs @ ys) = failed_pending (failed_pending f xs) ys"
  by (induction f xs rule: failed_pending.induct) simp_all

lemma failed_pending_no_reads: "\<forall>e \<in> set xs. \<not> is_read_event e \<Longrightarrow> failed_pending f xs = f"
  by (induction f xs rule: failed_pending.induct) simp_all

lemma no_sleep_quiet:
  "\<forall>e \<in> set xs. \<not> is_read_event e \<and> \<not> is_sleep_event e \<Longrightarrow> no_sleep_after_failed_read f xs"
  by (induction f xs rule: no_sleep_after_failed_read.induct) simp_all

lemma no_sleep_reads: "\<forall>e \<in> set xs. is_read_event e \<Longrightarrow> no_sleep_after_failed_read f xs"
  by (induction f xs rule: no_sleep_after_failed_read.induct) simp_all

lemma no_sleep_sleeps: "\<forall>e \<in> set xs. is_sleep_event e \<Longrightarrow> no_sleep_after_failed_read False xs"
  by (induction xs) (auto elim: is_sleep_event.elims)

lemma sleep_not_read: "is_sleep_event e \<Longrightarrow> \<not> is_read_event e"
  by (cases e) simp_all

lemma read_all_pending:
  "read_all ev rs frames w = (ok, frames', w') \<Longrightarrow>
   \<exists>evs. trace w' = trace w @ evs \<and> (\<forall>e \<in> set evs. is_read_event e) \<and>
         (\<forall>f. failed_pending f evs = (if rs = [] then f else \<not> ok))"
proof (induction rs arbitrary: frames w)
  case Nil
  then show ?case by simp
next
  case (Cons r rs)
  obtain name idx where r: "r = (name, idx)" by (cases r)
  obtain ok1 fr where c: "cam_read ev (n_reads w) = (ok1, fr)" by (cases "cam_read ev (n_reads w)")
  show ?case
  proof (cases ok1)
    case False
    with Cons.prems r c have "trace w' = trace w @ [E_read name False]" "\<not> ok"
      by (auto simp: Let_def)
    then show ?thesis by simp
  next
    case True
    let ?w1 = "emit (E_read name True) (w\<lparr>n_reads := Suc (n_reads w)\<rparr>)"
    from True Cons.prems r c
    have "read_all ev rs (frames @ [fr]) ?w1 = (ok, frames', w')"
      by (simp add: Let_def)
    from Cons.IH [OF this] obtain evs where
      e: "trace w' = trace ?w1 @ evs" "\<forall>e \<in> set evs. is_read_event e"
        "\<forall>f. failed_pending f evs = (if rs = [] then f else \<not> ok)"
      by blast
    have okT: "ok" if "rs = []"
      using that \<open>read_all ev rs (frames @ [fr]) ?w1 = (ok, frames', w')\<close> by simp
    have "trace w' = trace w @ (E_read name True # evs)" using e(1) by simp
    moreover have "\<forall>e \<in> set (E_read name True # evs). is_read_event e" using e(2) by simp
    moreover have "\<forall>f. failed_pending f (E_read name True # evs) = (if r # rs = [] then f else \<not> ok)"
      using e(3) okT by auto
    ultimately show ?thesis by blast
  qed
qed

lemma tick_no_sleep:
  assumes t: "tick ev a cs rs nm st (s, w) = (fl, s', w')" and f: "f \<longrightarrow> rs \<noteq> []"
  shows "\<exists>evs. trace w' = trace w @ evs \<and> no_sleep_after_failed_read f evs \<and>
               (failed_pending f evs \<longrightarrow> rs \<noteq> [])"
  using t
proof (cases rule: tick_cases)
  case (fail frames)
  from read_all_pending [OF fail(1)] obtain evs where
    e: "trace w' = trace w @ evs" "\<forall>e \<in> set evs. is_read_event e"
      "\<forall>f. failed_pending f evs = (if rs = [] then f else True)"
    by auto
  from e(3) f have "failed_pending f evs \<longrightarrow> rs \<noteq> []" by auto
  with e(1) no_sleep_reads [OF e(2)] show ?thesis by blast
next
  case (raise frames w2 vws w3 e vws')
  from read_all_pending [OF raise(1)] obtain e1 where
    e1: "trace w2 = trace w @ e1" "\<forall>e \<in> set e1. is_read_event e"
      "\<forall>f. failed_pending f e1 = (if rs = [] then f else False)"
    by auto
  from ensure_writers_frame [OF raise(2)] obtain e2 where
    e2: "trace w3 = trace w2 @ e2" "\<forall>e \<in> set e2. \<not> is_read_event e \<and> \<not> is_sleep_event e"
    by auto
  from write_frames_frame [OF raise(3)] obtain e3 where
    e3: "trace w' = trace w3 @ e3" "\<forall>e \<in> set e3. \<not> is_read_event e \<and> \<not> is_sleep_event e"
    by auto
  have q: "\<forall>e \<in> set (e2 @ e3). \<not> is_read_event e \<and> \<not> is_sleep_event e" using e2(2) e3(2) by auto
  then have q2: "\<forall>e \<in> set (e2 @ e3). \<not> is_read_event e" by blast
  have tr: "trace w' = trace w @ (e1 @ (e2 @ e3))" using e1(1) e2(1) e3(1) by simp
  have "no_sleep_after_failed_read f (e1 @ (e2 @ e3))"
    by (subst no_sleep_append) (simp add: no_sleep_reads [OF e1(2)] no_sleep_quiet [OF q])
  moreover have "failed_pending f (e1 @ (e2 @ e3)) \<longrightarrow> rs \<noteq> []"
    by (subst failed_pending_append) (use e1(3) f in \<open>auto simp: failed_pending_no_reads [OF q2]\<close>)
  ultimately show ?thesis using tr by blast
next
  case (ok frames w2 vws w3 vws' w4)
  from read_all_pending [OF ok(1)] obtain e1 where
    e1: "trace w2 = trace w @ e1" "\<forall>e \<in> set e1. is_read_event e"
      "\<forall>f. failed_pending f e1 = (if rs = [] then f else False)"
    by auto
  from ensure_writers_frame [OF ok(2)] obtain e2 where
    e2: "trace w3 = trace w2 @ e2" "\<forall>e \<in> set e2. \<not> is_read_event e \<and> \<not> is_sleep_event e"
    by auto
  from write_frames_frame [OF ok(3)] obtain e3 where
    e3: "trace w4 = trace w3 @ e3" "\<forall>e \<in> set e3. \<not> is_read_event e \<and> \<not> is_sleep_event e"
    by auto
  from pace_frame [OF ok(5)] obtain e4 where
    e4: "trace w' = trace w4 @ e4" "\<forall>e \<in> set e4. is_sleep_event e"
    by auto
  define m where "m = e2 @ e3"
  define r where "r = m @ e4"
  have q: "\<forall>e \<in> set m. \<not> is_read_event e \<and> \<not> is_sleep_event e"
    using e2(2) e3(2) by (auto simp: m_def)
  then have q23: "\<forall>e \<in> set m. \<not> is_read_event e" by blast
  have q4: "\<forall>e \<in> set e4. \<not> is_read_event e" using e4(2) sleep_not_read by blast
  have tr: "trace w' = trace w @ (e1 @ r)"
    using e1(1) e2(1) e3(1) e4(1) by (simp add: m_def r_def)
  have p1: "failed_pending f e1 = False" using e1(3) f by auto
  have p2: "failed_pending False m = False" by (rule failed_pending_no_reads [OF q23])
  have p3: "failed_pending False r = False"
    unfolding r_def by (subst failed_pending_append) (simp add: p2 failed_pending_no_reads [OF q4])
  have n3: "no_sleep_after_failed_read False r"
    unfolding r_def
    by (subst no_sleep_append) (simp add: p2 no_sleep_quiet [OF q] no_sleep_sleeps [OF e4(2)])
  have "no_sleep_after_failed_read f (e1 @ r)"
    by (subst no_sleep_append) (simp add: p1 n3 no_sleep_reads [OF e1(2)])
  moreover have "\<not> failed_pending f (e1 @ r)"
    by (subst failed_pending_append) (simp add: p1 p3)
  ultimately show ?thesis using tr by blast
qed

lemma reach_no_sleep:
  assumes "loop_reach ev a cs rs nm st sw0 c"
  shows "\<exists>evs. trace (snd (snd c)) = trace (snd sw0) @ evs \<and>
               no_sleep_after_failed_read False evs \<and> (failed_pending False evs \<longrightarrow> rs \<noteq> [])"
  using assms
proof (induction rule: loop_reach.induct)
  case reach_start
  then show ?case by simp
next
  case (reach_step sw c)
  obtain s w where sw: "sw = (s, w)" by (cases sw)
  obtain fl s' w' where c: "c = (fl, s', w')" by (cases c)
  from reach_step.IH sw obtain evs where
    e: "trace w = trace (snd sw0) @ evs" "no_sleep_after_failed_read False evs"
      "failed_pending False evs \<longrightarrow> rs \<noteq> []"
    by auto
  from reach_step.hyps(3) sw c have t: "tick ev a cs rs nm st (s, w) = (fl, s', w')" by simp
  from tick_no_sleep [OF t e(3)] obtain tevs where
    te: "trace w' = trace w @ tevs" "no_sleep_after_failed_read (failed_pending False evs) tevs"
      "failed_pending (failed_pending False evs) tevs \<longrightarrow> rs \<noteq> []"
    by blast
  have "trace w' = trace (snd sw0) @ (evs @ tevs)" using e(1) te(1) by simp
  moreover have "no_sleep_after_failed_read False (evs @ tevs)"
    using e(2) te(2) by (simp add: no_sleep_append)
  moreover have "failed_pending False (evs @ tevs) \<longrightarrow> rs \<noteq> []"
    using te(3) by (simp add: failed_pending_append)
  ultimately show ?case using c by auto
qed

subsection \<open>Episodes and the whole run\<close>

lemma record_episode_frame:
  assumes "record_episode n ev a cs rs ep w = (st, w')"
  shows "(\<exists>evs. trace w' = trace w @ evs) \<and> dirs w' = dirs w \<and>
         files w' (info_path a) = files w (info_path a) \<and>
         files w' (tasks_path a) = files w (tasks_path a) \<and>
         keeps_lines w w' p \<and>
         (st \<noteq> Some Completed \<longrightarrow> files w' = files w \<and> tables w' = tables w)"
proof (cases "max_frames_py a")
  case (Inl e)
  with assms have "st = Some (Raised e)" "w' = snd (now ev w)"
    by (simp_all add: record_episode_def now_def Let_def)
  then show ?thesis by (simp add: keeps_lines_iff)
next
  case (Inr mx)
  let ?nm = "make_episode_name ep"
  obtain ex s w2 where
    l: "episode_loop n ev a cs rs ?nm (clock ev (n_clock w)) (init_ep_state cs, snd (now ev w)) = (ex, s, w2)"
    by (cases "episode_loop n ev a cs rs ?nm (clock ev (n_clock w)) (init_ep_state cs, snd (now ev w))")
  from episode_loop_frame [OF l]
  have f2: "files w2 = files w" "dirs w2 = dirs w" "tables w2 = tables w"
    and t2: "\<exists>evs. trace w2 = trace w @ evs"
    by auto
  obtain err w3 where r: "release_writers (vw_writers s) w2 = (err, w3)"
    by (cases "release_writers (vw_writers s) w2")
  from release_writers_frame [OF r] f2 t2
  have f3: "files w3 = files w" "dirs w3 = dirs w" "tables w3 = tables w"
    and t3: "\<exists>evs. trace w3 = trace w @ evs"
    by auto
  have run: "record_episode n ev a cs rs ep w =
    (case ex of None \<Rightarrow> (None, w2) | Some (Loop_raised e) \<Rightarrow> (Some (Raised e), w2)
     | Some _ \<Rightarrow> (case err of Some e \<Rightarrow> (Some (Raised e), w3)
         | None \<Rightarrow> (Some Completed,
             append_jsonl (stats_path a) (Stats_line (int ep) (frame_count s))
               (append_jsonl (episodes_path a) (Episode_line (int ep) (frame_count s) [0])
                 (write_table (data_dir a @ [?nm @ ''.parquet'']) (rows s) w3)))))"
    using l r Inr
    by (simp add: record_episode_def now_def Let_def split: option.splits loop_exit.splits)
  consider (a) "st \<noteq> Some Completed" "w' = w2 \<or> w' = w3"
    | (b) "st = Some Completed"
      "w' = append_jsonl (stats_path a) (Stats_line (int ep) (frame_count s))
               (append_jsonl (episodes_path a) (Episode_line (int ep) (frame_count s) [0])
                 (write_table (data_dir a @ [?nm @ ''.parquet'']) (rows s) w3))"
    using assms unfolding run by (auto split: option.splits loop_exit.splits)
  then show ?thesis
  proof cases
    case a
    with f2 f3 t2 t3 show ?thesis by (auto simp: keeps_lines_iff)
  next
    case b
    let ?w4 = "write_table (data_dir a @ [?nm @ ''.parquet'']) (rows s) w3"
    let ?w5 = "append_jsonl (episodes_path a) (Episode_line (int ep) (frame_count s) [0]) ?w4"
    have "keeps_lines w ?w4 p" using f3 by (simp add: keeps_lines_iff)
    then have "keeps_lines w ?w5 p"
      using keeps_lines_append_jsonl keeps_lines_trans by blast
    then have k: "keeps_lines w w' p"
      unfolding b(2) using keeps_lines_append_jsonl keeps_lines_trans by blast
    from t3 obtain evs where "trace w3 = trace w @ evs" ..
    then have "\<exists>evs'. trace w' = trace w @ evs'" unfolding b(2) by simp
    with k b f3 show ?thesis by simp
  qed
qed

lemma episodes_loop_frame:
  "episodes_loop n ev a cs rs eps w = (st, w') \<Longrightarrow>
   (\<exists>evs. trace w' = trace w @ evs) \<and> dirs w' = dirs w \<and>
   files w' (info_path a) = files w (info_path a) \<and>
   files w' (tasks_path a) = files w (tasks_path a) \<and>
   keeps_lines w w' p"
proof (induction eps arbitrary: w)
  case Nil
  then show ?case by (simp add: keeps_lines_iff)
next
  case (Cons ep eps)
  obtain st1 w1 where e: "record_episode n ev a cs rs ep w = (st1, w1)"
    by (cases "record_episode n ev a cs rs ep w")
  note f = record_episode_frame [OF e, of p]
  show ?case
  proof (cases "st1 = Some Completed")
    case True
    with Cons.prems e have "episodes_loop n ev a cs rs eps w1 = (st, w')" by simp
    from Cons.IH [OF this] f show ?thesis
      by (auto intro: keeps_lines_trans)
  next
    case False
    with Cons.prems e have "st = st1" "w' = w1"
      by (auto split: option.splits status.splits)
    with f show ?thesis by simp
  qed
qed

lemma record_dataset_cases:
  assumes "record_dataset n ev a w = (st, w')"
  obtains
    (config) e where "get_cam_specs a = Inl e" "st = Some (Raised e)" "w' = w"
  | (open_failed) cs e where "get_cam_specs a = Inr cs"
      "open_cameras ev cs [] (make_layout a cs w) = (Inl e, w')" "st = Some (Raised e)"
  | (running) cs rs w2 where "get_cam_specs a = Inr cs"
      "open_cameras ev cs [] (make_layout a cs w) = (Inr rs, w2)"
      "episodes_loop n ev a cs rs [0..<nat (episodes a)] w2 = (None, w')" "st = None"
  | (ended) cs rs w2 r w3 where "get_cam_specs a = Inr cs"
      "open_cameras ev cs [] (make_layout a cs w) = (Inr rs, w2)"
      "episodes_loop n ev a cs rs [0..<nat (episodes a)] w2 = (Some r, w3)"
      "st = Some r" "w' = release_cameras rs w3"
proof (cases "get_cam_specs a")
  case (Inl e)
  with assms show thesis by (intro config [of e]) (simp_all add: record_dataset_def)
next
  case (Inr cs)
  then have ne: "cs \<noteq> []" by (rule get_cam_specs_wf)
  obtain opened w2 where o: "open_cameras ev cs [] (make_layout a cs w) = (opened, w2)"
    by (cases "open_cameras ev cs [] (make_layout a cs w)")
  show thesis
  proof (cases opened)
    case (Inl e)
    with assms Inr ne o show thesis
      by (intro open_failed [of cs e]) (simp_all add: record_dataset_def Let_def)
  next
    case rs: (Inr rs)
    obtain st3 w3 where l: "episodes_loop n ev a cs rs [0..<nat (episodes a)] w2 = (st3, w3)"
      by (cases "episodes_loop n ev a cs rs [0..<nat (episodes a)] w2")
    show thesis
    proof (cases st3)
      case None
      with assms Inr ne o rs l show thesis
        by (intro running [of cs rs w2]) (simp_all add: record_dataset_def Let_def)
    next
      case (Some r)
      with assms Inr ne o rs l show thesis
        by (intro ended [of cs rs w2 r w3]) (simp_all add: record_dataset_def Let_def)
    qed
  qed
qed

lemma record_dataset_frame:
  assumes "record_dataset n ev a w = (st, w')" and "get_cam_specs a = Inr cs"
  shows "(\<exists>evs. trace w' = trace (make_layout a cs w) @ evs)"
    and "dirs w' = dirs (make_layout a cs w)"
    and "files w' (info_path a) = Some [Info_json (fps a) True]"
    and "files w' (tasks_path a) = files (make_layout a cs w) (tasks_path a)"
    and "keeps_lines (make_layout a cs w) w' p"
proof -
  let ?w1 = "make_layout a cs w"
  have i1: "files ?w1 (info_path a) = Some [Info_json (fps a) True]"
    by (simp add: make_layout_files)
  have "(\<exists>evs. trace w' = trace ?w1 @ evs) \<and> dirs w' = dirs ?w1 \<and>
        files w' (info_path a) = files ?w1 (info_path a) \<and>
        files w' (tasks_path a) = files ?w1 (tasks_path a) \<and> keeps_lines ?w1 w' p"
    using assms(1)
  proof (cases rule: record_dataset_cases)
    case (config e)
    with assms(2) show ?thesis by simp
  next
    case (open_failed cs' e)
    with assms(2) have "open_cameras ev cs [] ?w1 = (Inl e, w')" by simp
    from open_cameras_frame [OF this] show ?thesis by (auto simp: keeps_lines_iff)
  next
    case (running cs' rs w2)
    with assms(2) have o: "open_cameras ev cs [] ?w1 = (Inr rs, w2)"
      and l: "episodes_loop n ev a cs rs [0..<nat (episodes a)] w2 = (None, w')" by simp_all
    from open_cameras_frame [OF o] have "keeps_lines ?w1 w2 p" by (simp add: keeps_lines_iff)
    with open_cameras_frame [OF o] episodes_loop_frame [OF l, of p] show ?thesis
      by (auto intro: keeps_lines_trans)
  next
    case (ended cs' rs w2 r w3)
    with assms(2) have o: "open_cameras ev cs [] ?w1 = (Inr rs, w2)"
      and l: "episodes_loop n ev a cs rs [0..<nat (episodes a)] w2 = (Some r, w3)" by simp_all
    from open_cameras_frame [OF o] have "keeps_lines ?w1 w2 p" by (simp add: keeps_lines_iff)
    with open_cameras_frame [OF o] episodes_loop_frame [OF l, of p]
    have "(\<exists>evs. trace w3 = trace ?w1 @ evs) \<and> dirs w3 = dirs ?w1 \<and>
        files w3 (info_path a) = files ?w1 (info_path a) \<and>
        files w3 (tasks_path a) = files ?w1 (tasks_path a) \<and> keeps_lines ?w1 w3 p"
      by (auto intro: keeps_lines_trans)
    then show ?thesis unfolding ended(5) by (auto simp: keeps_lines_iff)
  qed
  with i1 show "(\<exists>evs. trace w' = trace (make_layout a cs w) @ evs)"
    and "dirs w' = dirs (make_layout a cs w)"
    and "files w' (info_path a) = Some [Info_json (fps a) True]"
    and "files w' (tasks_path a) = files (make_layout a cs w) (tasks_path a)"
    and "keeps_lines (make_layout a cs w) w' p"
    by simp_all
qed

lemma record_dataset_open_fail:
  assumes "get_cam_specs a = Inr (pre @ (name, idx) # post)"
    and "\<forall>(n, i) \<in> set pre. can_open ev i" and "\<not> can_open ev idx"
  shows "\<exists>w'. record_dataset fuel ev a w = (Some (Raised (RuntimeError_open idx)), w') \<and>
              trace w' = trace (make_layout a (pre @ (name, idx) # post) w)
                           @ map (\<lambda>(n, i). E_open n i True) pre @ [E_open name idx False]"
proof -
  let ?cs = "pre @ (name, idx) # post"
  from open_cameras_fail [OF assms(2,3), of name post "[]" "make_layout a ?cs w"]
  obtain w' where o: "open_cameras ev ?cs [] (make_layout a ?cs w) = (Inl (RuntimeError_open idx), w')"
    and t: "trace w' = trace (make_layout a ?cs w) @ map (\<lambda>(n, i). E_open n i True) pre
                         @ [E_open name idx False]"
    by blast
  from assms(1) o have "record_dataset fuel ev a w = (Some (Raised (RuntimeError_open idx)), w')"
    by (simp add: record_dataset_def Let_def)
  with t show ?thesis by blast
qed

lemma record_episode_line_150_raises:
  "max_frames_py a = Inl e \<Longrightarrow> fst (record_episode n ev a cs rs ep w) = Some (Raised e)"
  by (simp add: record_episode_def now_def Let_def)

lemma record_episode_all_fail:
  assumes "\<forall>n. \<not> fst (cam_read ev n)" and "cs \<noteq> []" and "rs = cs"
  shows "\<exists>w'. record_episode n ev a cs rs ep w =
               (case max_frames_py a of
                  Inl e \<Rightarrow> Some (Raised e)
                | Inr mx \<Rightarrow> if 0 < mx then None
                            else Some (Raised (AttributeError_NoneType ''release'')), w')"
proof (cases "max_frames_py a")
  case (Inl e)
  then show ?thesis by (simp add: record_episode_def now_def Let_def)
next
  case (Inr mx)
  then have mx: "max_frames a = mx" by (rule max_frames_py_Inr)
  show ?thesis
  proof (cases "0 < mx")
    case True
    then have "frame_count (init_ep_state cs) < max_frames a"
      by (simp add: init_ep_state_def mx)
    from loop_all_fail [OF assms(1) _ this, of rs n cs "make_episode_name ep"
        "clock ev (n_clock w)" "snd (now ev w)"] assms(2,3)
    obtain w' where "episode_loop n ev a cs rs (make_episode_name ep) (clock ev (n_clock w))
                       (init_ep_state cs, snd (now ev w)) = (None, init_ep_state cs, w')"
      by auto
    with True Inr show ?thesis by (simp add: record_episode_def now_def Let_def)
  next
    case False
    then have nl: "\<not> frame_count (init_ep_state cs) < max_frames a"
      by (simp add: init_ep_state_def mx)
    have l: "episode_loop n ev a cs rs (make_episode_name ep) (clock ev (n_clock w))
               (init_ep_state cs, snd (now ev w))
             = (Some Bound_reached, init_ep_state cs, snd (now ev w))"
      using nl by (cases n) simp_all
    from assms(2) obtain name idx rest where cs: "cs = (name, idx) # rest"
      by (cases cs) auto
    have "release_writers (vw_writers (init_ep_state cs)) (snd (now ev w))
            = (Some (AttributeError_NoneType ''release''), snd (now ev w))"
      by (simp add: cs init_ep_state_def)
    with l False Inr show ?thesis by (simp add: record_episode_def now_def Let_def)
  qed
qed

subsection \<open>The concrete runs\<close>

lemmas eval_max_frames =
  max_frames_def max_frames_py_def int_to_float_def round_double_def float_exponent_def
  round_half_even_def pow2_def compute_bitlen

lemmas eval_tick =
  tick_def now_def ensure_writers_def pace_def emit_def init_video_writer_def
  init_ep_state_def video_dir_def video_dir_root_def Let_def world0_def world1_def cams_two_def

lemma get_cam_specs_args_two: "get_cam_specs args_two = Inr [(''front'', 0), (''wrist'', 2)]"
  by code_simp

lemma get_cam_specs_args_no_eq: "get_cam_specs args_no_eq = Inl (ValueError_camera_format ''front'')"
  by code_simp

lemma cfg_two: "get_cam_specs args_two = Inr cams_two"
  using get_cam_specs_args_two by (simp add: cams_two_def)

lemma cfg_default:
  "camera a = None \<Longrightarrow> get_cam_specs a = Inr cams_front"
  by (simp add: get_cam_specs_def cams_front_def)

lemma opened_two:
  assumes "\<forall>i. can_open ev i"
  shows "open_cameras ev cams_two [] world0 = (Inr cams_two, snd (open_cameras ev cams_two [] world0))"
proof -
  have "fst (open_cameras ev cams_two [] world0) = Inr cams_two"
    by (rule open_cameras_all_ok) (use assms in \<open>simp_all add: cams_two_def\<close>)
  then show ?thesis by (metis prod.collapse)
qed

lemma opened_front:
  assumes "\<forall>i. can_open ev i"
  shows "open_cameras ev cams_front [] world0
           = (Inr cams_front, snd (open_cameras ev cams_front [] world0))"
proof -
  have "fst (open_cameras ev cams_front [] world0) = Inr cams_front"
    by (rule open_cameras_all_ok) (use assms in \<open>simp_all add: cams_front_def\<close>)
  then show ?thesis by (metis prod.collapse)
qed

lemma float_007: "round_double (7 / 100) = Finite (1261007895663739 / 18014398509481984)"
  by (simp add: eval_max_frames)

lemma float_01: "round_double (1 / 10) = Finite (3602879701896397 / 36028797018963968)"
  by (simp add: eval_max_frames)

lemma max_frames_py_args_two: "max_frames_py args_two = Inr 300"
  by (simp add: eval_max_frames args_two_def)

lemma max_frames_args_two: "max_frames args_two = 300"
  using max_frames_py_args_two by (rule max_frames_py_Inr)

lemma max_frames_py_args_zero_duration: "max_frames_py args_zero_duration = Inr 0"
  by (simp add: eval_max_frames args_zero_duration_def)

lemma max_frames_py_args_min_frames_5: "max_frames_py args_min_frames_5 = Inr 300"
  by (simp add: eval_max_frames args_min_frames_5_def)

lemma max_frames_py_args_one_second: "max_frames_py args_one_second = Inr 30"
  by (simp add: eval_max_frames args_one_second_def)

lemma max_frames_py_args_two_frames: "max_frames_py args_two_frames = Inr 300"
  by (simp add: eval_max_frames args_two_frames_def)

lemma max_frames_args_two_frames: "max_frames args_two_frames = 300"
  using max_frames_py_args_two_frames by (rule max_frames_py_Inr)

lemma max_frames_py_args_float_007: "max_frames_py args_float_007 = Inr 8"
  by (simp add: eval_max_frames args_float_007_def)

lemma max_frames_py_args_float_01: "max_frames_py args_float_01 = Inr 1"
  by (simp add: eval_max_frames args_float_01_def)

lemma max_frames_py_args_inf_duration: "max_frames_py args_inf_duration = Inl OverflowError_ceil"
  by (simp add: eval_max_frames args_inf_duration_def)

lemma max_frames_py_args_nan_duration: "max_frames_py args_nan_duration = Inl ValueError_ceil"
  by (simp add: eval_max_frames args_nan_duration_def)

lemma env_ok_reads: "fst (cam_read env_ok n)"
  by (simp add: env_ok_def)

lemma run_wrist_fails:
  "\<exists>w'. record_dataset fuel env_wrist_fails args_two world0
            = (Some (Raised (RuntimeError_open 2)), w') \<and>
        trace w' = trace (make_layout args_two [(''front'', 0), (''wrist'', 2)] world0)
                     @ [E_open ''front'' 0 True, E_open ''wrist'' 2 False]"
proof -
  have c: "get_cam_specs args_two = Inr ([(''front'', 0)] @ (''wrist'', 2) # [])"
    using get_cam_specs_args_two by simp
  have o: "\<forall>(n, i) \<in> set [(''front'', 0::int)]. can_open env_wrist_fails i"
    by (simp add: env_wrist_fails_def)
  have f: "\<not> can_open env_wrist_fails 2"
    by (simp add: env_wrist_fails_def)
  from record_dataset_open_fail [OF c o f, of fuel world0] show ?thesis by simp
qed

section \<open>The claims\<close>

text \<open>
  Claim C1 (the code departs from it). With at least one episode to record and cameras
  whose every read fails, \<^verbatim>\<open>record_dataset\<close> never completes an episode of length 0: when
  line 150 raises (\<^verbatim>\<open>math.ceil\<close> of an infinite or undefined product, or an \<^verbatim>\<open>fps\<close> too
  large for a \<^verbatim>\<open>float\<close>) the run ends with that error; when
  \<^verbatim>\<open>max_frames = math.ceil(duration * fps)\<close> is positive the first episode's loop is still
  running after any number of passes; and otherwise the loop is skipped and releasing the
  writers, which are still \<^verbatim>\<open>None\<close>, raises. In every case no row table and no line of
  \<^verbatim>\<open>episodes.jsonl\<close> or \<^verbatim>\<open>episodes_stats.jsonl\<close> is written.
\<close>

theorem all_reads_fail_no_episode_record:
  assumes "\<forall>n. \<not> fst (cam_read ev n)"
    and "get_cam_specs a = Inr cs" and "\<forall>(n, i) \<in> set cs. can_open ev i"
    and "0 < episodes a"
  shows "fst (record_dataset fuel ev a w) =
           (case max_frames_py a of
              Inl e \<Rightarrow> Some (Raised e)
            | Inr mx \<Rightarrow> if 0 < mx then None
                        else Some (Raised (AttributeError_NoneType ''release''))) \<and>
         files (snd (record_dataset fuel ev a w)) (episodes_path a) = files w (episodes_path a) \<and>
         files (snd (record_dataset fuel ev a w)) (stats_path a) = files w (stats_path a) \<and>
         tables (snd (record_dataset fuel ev a w)) = tables w"
proof -
  let ?w1 = "make_layout a cs w"
  note wf = get_cam_specs_wf [OF assms(2)]
  from open_cameras_ok [OF assms(3), of "[]" ?w1] obtain rs w2 where
    o: "open_cameras ev cs [] ?w1 = (Inr rs, w2)" by blast
  from open_cameras_result [OF o] wf(1) have rs: "rs = cs" by simp
  from open_cameras_frame [OF o]
  have f2: "files w2 = files ?w1" "tables w2 = tables ?w1" by simp_all
  from assms(4) have "0 < nat (episodes a)" by simp
  then have eps: "[0..<nat (episodes a)] = 0 # [Suc 0..<nat (episodes a)]"
    by (rule upt_conv_Cons)
  define st where
    "st = (case max_frames_py a of
             Inl e \<Rightarrow> Some (Raised e)
           | Inr mx \<Rightarrow> if 0 < mx then None
                       else Some (Raised (AttributeError_NoneType ''release'')))"
  from record_episode_all_fail [OF assms(1) wf(2) rs, of fuel a 0 w2] obtain w3 where
    e: "record_episode fuel ev a cs rs 0 w2 = (st, w3)" unfolding st_def by blast
  have nc: "st \<noteq> Some Completed" by (simp add: st_def split: sum.splits)
  from record_episode_frame [OF e, of "episodes_path a"] nc
  have f3: "files w3 = files w2" "tables w3 = tables w2" by simp_all
  have l: "episodes_loop fuel ev a cs rs [0..<nat (episodes a)] w2 = (st, w3)"
    unfolding eps using e nc by (auto split: option.splits status.splits)
  have run: "record_dataset fuel ev a w =
               (st, case st of None \<Rightarrow> w3 | Some r \<Rightarrow> release_cameras rs w3)"
    using assms(2) wf(2) o l
    by (simp add: record_dataset_def Let_def split: option.splits)
  have "files (snd (record_dataset fuel ev a w)) = files ?w1"
    "tables (snd (record_dataset fuel ev a w)) = tables w"
    unfolding run using f2 f3 by (simp_all split: option.splits)
  with run show ?thesis by (simp add: make_layout_files st_def)
qed

theorem all_reads_fail_no_episode_record_witness:
  "fst (record_dataset 1000 env_no_frames args_two world0) = None \<and>
   files (snd (record_dataset 1000 env_no_frames args_two world0)) (episodes_path args_two) = None \<and>
   fst (record_dataset 1000 env_no_frames args_zero_duration world0)
     = Some (Raised (AttributeError_NoneType ''release'')) \<and>
   files (snd (record_dataset 1000 env_no_frames args_zero_duration world0))
     (episodes_path args_zero_duration) = None \<and>
   fst (record_dataset 1000 env_no_frames args_inf_duration world0)
     = Some (Raised OverflowError_ceil)"
proof -
  have fails: "\<forall>n. \<not> fst (cam_read env_no_frames n)" by (simp add: env_no_frames_def)
  have opens: "\<forall>(n, i) \<in> set cs. can_open env_no_frames i" for cs :: "(string \<times> int) list"
    by (simp add: env_no_frames_def)
  have cfg0: "get_cam_specs args_zero_duration = Inr cams_front"
    by (rule cfg_default) (simp add: args_zero_duration_def)
  have cfg1: "get_cam_specs args_inf_duration = Inr cams_front"
    by (rule cfg_default) (simp add: args_inf_duration_def)
  have e: "0 < episodes args_two" "0 < episodes args_zero_duration"
    "0 < episodes args_inf_duration"
    by (simp_all add: args_two_def args_zero_duration_def args_inf_duration_def)
  note m = max_frames_py_args_two max_frames_py_args_zero_duration
    max_frames_py_args_inf_duration
  have f: "files world0 p = None" for p by (simp add: world0_def)
  from all_reads_fail_no_episode_record [OF fails cfg_two opens e(1), of 1000 world0]
    all_reads_fail_no_episode_record [OF fails cfg0 opens e(2), of 1000 world0]
    all_reads_fail_no_episode_record [OF fails cfg1 opens e(3), of 1000 world0]
  show ?thesis by (simp add: m f)
qed

text \<open>
  Claim C2 (the code departs from it). With \<^verbatim>\<open>--camera front=0 --camera wrist=2\<close>, device 0
  opening and device 2 not, the run ends with the error of the camera that did not open,
  and its trace holds the two attempts to open and no release of any camera: the loop
  that opens the cameras (lines 133 to 137) stands before the \<^verbatim>\<open>try\<close> whose \<^verbatim>\<open>finally\<close>
  releases them, so the already opened \<^verbatim>\<open>front\<close> is never released.
\<close>

theorem open_failure_releases_nothing:
  "fst (record_dataset fuel env_wrist_fails args_two world0)
     = Some (Raised (RuntimeError_open 2)) \<and>
   filter (\<lambda>e. is_open_event e \<or> is_release_camera_event e)
     (trace (snd (record_dataset fuel env_wrist_fails args_two world0)))
     = [E_open ''front'' 0 True, E_open ''wrist'' 2 False]"
proof -
  from run_wrist_fails [of fuel] obtain w' where
    r: "record_dataset fuel env_wrist_fails args_two world0
          = (Some (Raised (RuntimeError_open 2)), w')" and
    t: "trace w' = trace (make_layout args_two [(''front'', 0), (''wrist'', 2)] world0)
                     @ [E_open ''front'' 0 True, E_open ''wrist'' 2 False]"
    by blast
  have "filter (\<lambda>e. is_open_event e \<or> is_release_camera_event e) (trace w')
          = [E_open ''front'' 0 True, E_open ''wrist'' 2 False]"
    unfolding t by (simp add: make_layout_trace world0_def)
  with r show ?thesis by simp
qed

text \<open>
  Claim C3 (amended). Line 150 computes \<^verbatim>\<open>max_frames = math.ceil(args.duration * args.fps)\<close>
  on floats: the product is the double nearest to the exact product, so that
  \<^verbatim>\<open>--duration 0.07 --fps 100\<close> gives 8 and not 7, and \<^verbatim>\<open>math.ceil\<close> raises on an infinite or
  undefined product, in which case the episode ends with that error before its loop is
  entered. When line 150 returns and every read succeeds, the episode's loop ends, within
  \<open>max_frames\<close> passes, with \<^verbatim>\<open>frame_count = min(max(min_frames, 1), max(max_frames, 0))\<close>:
  the \<^verbatim>\<open>min_frames\<close> test comes after the first frame has been counted, and a loop bound
  below zero leaves the count at zero. For \<^verbatim>\<open>min_frames >= 1\<close> and \<^verbatim>\<open>max_frames >= 0\<close> this
  is \<^verbatim>\<open>min(min_frames, max_frames)\<close>.
\<close>

theorem frame_count_when_all_reads_succeed:
  assumes "\<forall>n \<ge> n_reads w. fst (cam_read ev n)"
    and "get_cam_specs a = Inr cs" and "open_cameras ev cs [] w0 = (Inr rs, w1)"
  shows "case max_frames_py a of
           Inl e \<Rightarrow> fst (record_episode fuel ev a cs rs ep w) = Some (Raised e)
         | Inr mx \<Rightarrow>
             nat mx \<le> fuel \<longrightarrow>
             (\<exists>ex s' w'.
                episode_loop fuel ev a cs rs nm st (init_ep_state cs, w) = (Some ex, s', w') \<and>
                (ex = Bound_reached \<or> ex = Min_frames_reached) \<and>
                frame_count s' = min (max (min_frames a) 1) (max mx 0) \<and>
                (1 \<le> min_frames a \<and> 0 \<le> mx \<longrightarrow> frame_count s' = min (min_frames a) mx))"
proof (cases "max_frames_py a")
  case (Inl e)
  then show ?thesis by (simp add: record_episode_line_150_raises)
next
  case (Inr mx)
  then have mx: "max_frames a = mx" by (rule max_frames_py_Inr)
  have "\<exists>ex s' w'.
          episode_loop fuel ev a cs rs nm st (init_ep_state cs, w) = (Some ex, s', w') \<and>
          (ex = Bound_reached \<or> ex = Min_frames_reached) \<and>
          frame_count s' = min (max (min_frames a) 1) (max mx 0) \<and>
          (1 \<le> min_frames a \<and> 0 \<le> mx \<longrightarrow> frame_count s' = min (min_frames a) mx)"
    if le: "nat mx \<le> fuel"
  proof -
    note wf = cameras_wf [OF assms(2,3)]
    have f0: "frame_count (init_ep_state cs) = 0" by (simp add: init_ep_state_def)
    have len: "length rs = length cs" using wf(1) by simp
    have fuel: "nat (max_frames a - frame_count (init_ep_state cs)) \<le> fuel"
      using le f0 mx by simp
    from loop_all_ok [OF wf(2) len consistent_init assms(1) fuel, of nm st]
    obtain ex s' w' where
      r: "episode_loop fuel ev a cs rs nm st (init_ep_state cs, w) = (Some ex, s', w')"
        "ex = Bound_reached \<or> ex = Min_frames_reached"
        "frame_count s' = (if mx \<le> 0 then 0 else min (max (min_frames a) 1) mx)"
      unfolding f0 mx by auto
    from r(3) have "frame_count s' = min (max (min_frames a) 1) (max mx 0)"
      by auto
    with r(1,2) show ?thesis by auto
  qed
  with Inr show ?thesis by simp
qed

theorem frame_count_when_all_reads_succeed_witness:
  "(\<exists>ex s' w'. episode_loop 300 env_ok args_min_frames_5 cams_front cams_front ''episode_000000'' 0
                  (init_ep_state cams_front, world1) = (Some ex, s', w') \<and> frame_count s' = 5) \<and>
   (\<exists>ex s' w'. episode_loop 8 env_ok args_float_007 cams_front cams_front ''episode_000000'' 0
                  (init_ep_state cams_front, world1) = (Some ex, s', w') \<and> frame_count s' = 8) \<and>
   (\<exists>ex s' w'. episode_loop 10 env_ok args_float_01 cams_front cams_front ''episode_000000'' 0
                  (init_ep_state cams_front, world1) = (Some ex, s', w') \<and> frame_count s' = 1) \<and>
   fst (record_episode 1 env_ok args_inf_duration cams_front cams_front 0 world1)
     = Some (Raised OverflowError_ceil) \<and>
   fst (record_episode 1 env_ok args_nan_duration cams_front cams_front 0 world1)
     = Some (Raised ValueError_ceil)"
proof -
  have cfg: "get_cam_specs args_min_frames_5 = Inr cams_front"
    "get_cam_specs args_float_007 = Inr cams_front"
    "get_cam_specs args_float_01 = Inr cams_front"
    "get_cam_specs args_inf_duration = Inr cams_front"
    "get_cam_specs args_nan_duration = Inr cams_front"
    by (rule cfg_default, simp add: args_min_frames_5_def args_float_007_def args_float_01_def
          args_inf_duration_def args_nan_duration_def)+
  have o: "open_cameras env_ok cams_front [] world0
             = (Inr cams_front, snd (open_cameras env_ok cams_front [] world0))"
    by (rule opened_front) (simp add: env_ok_def)
  have m: "min_frames args_min_frames_5 = 5" "min_frames args_float_007 = 50"
    "min_frames args_float_01 = 50"
    by (simp_all add: args_min_frames_5_def args_float_007_def args_float_01_def)
  have reads: "\<forall>n \<ge> n_reads world1. fst (cam_read env_ok n)"
    by (simp add: env_ok_reads)
  from frame_count_when_all_reads_succeed [OF reads cfg(1) o, of 300 0 "''episode_000000''" 0]
  have a: "\<exists>ex s' w'. episode_loop 300 env_ok args_min_frames_5 cams_front cams_front
                         ''episode_000000'' 0 (init_ep_state cams_front, world1) = (Some ex, s', w') \<and>
                       frame_count s' = 5"
    by (simp add: max_frames_py_args_min_frames_5 m) blast
  from frame_count_when_all_reads_succeed [OF reads cfg(2) o, of 8 0 "''episode_000000''" 0]
  have b: "\<exists>ex s' w'. episode_loop 8 env_ok args_float_007 cams_front cams_front
                         ''episode_000000'' 0 (init_ep_state cams_front, world1) = (Some ex, s', w') \<and>
                       frame_count s' = 8"
    by (simp add: max_frames_py_args_float_007 m) blast
  from frame_count_when_all_reads_succeed [OF reads cfg(3) o, of 10 0 "''episode_000000''" 0]
  have c: "\<exists>ex s' w'. episode_loop 10 env_ok args_float_01 cams_front cams_front
                         ''episode_000000'' 0 (init_ep_state cams_front, world1) = (Some ex, s', w') \<and>
                       frame_count s' = 1"
    by (simp add: max_frames_py_args_float_01 m) blast
  from frame_count_when_all_reads_succeed [OF reads cfg(4) o, of 1 0 "''episode_000000''" 0]
  have d: "fst (record_episode 1 env_ok args_inf_duration cams_front cams_front 0 world1)
             = Some (Raised OverflowError_ceil)"
    by (simp add: max_frames_py_args_inf_duration)
  from frame_count_when_all_reads_succeed [OF reads cfg(5) o, of 1 0 "''episode_000000''" 0]
  have e: "fst (record_episode 1 env_ok args_nan_duration cams_front cams_front 0 world1)
             = Some (Raised ValueError_ceil)"
    by (simp add: max_frames_py_args_nan_duration)
  from a b c d e show ?thesis by (intro conjI)
qed

theorem frame_count_min_frames_counterexample:
  "frame_count (fst (snd (episode_loop 1 env_ok args_min_frames_0 cams_front cams_front
                            ''episode_000000'' 0 (init_ep_state cams_front, world1)))) = 1 \<and>
   max_frames_py args_min_frames_0 = Inr 300 \<and>
   min (min_frames args_min_frames_0) (max_frames args_min_frames_0) = 0"
proof -
  have m: "max_frames_py args_min_frames_0 = Inr 300"
    by (simp add: eval_max_frames args_min_frames_0_def)
  then have m': "max_frames args_min_frames_0 = 300" by (rule max_frames_py_Inr)
  have "fps args_min_frames_0 = 30" "min_frames args_min_frames_0 = 0"
    by (simp_all add: args_min_frames_0_def)
  then have "frame_count (fst (snd (episode_loop 1 env_ok args_min_frames_0 cams_front cams_front
                            ''episode_000000'' 0 (init_ep_state cams_front, world1)))) = 1"
    by (simp add: eval_tick cams_front_def env_ok_def m')
  with m m' show ?thesis by (simp add: args_min_frames_0_def)
qed

text \<open>
  Claim C4. In every configuration the episode loop reaches, each camera's video holds as
  many frames as the row buffer has rows, and that number is \<^verbatim>\<open>frame_count\<close>. A pass in
  which one of the reads returns \<^verbatim>\<open>ok = False\<close> ends with \<^verbatim>\<open>continue\<close> in the state it
  started in (same writers, same rows, same \<^verbatim>\<open>frame_count\<close>), and the only effects of the
  pass are the reads themselves: no frame is written.
\<close>

theorem failed_tick_discarded_videos_match_rows:
  assumes "get_cam_specs a = Inr cs" and "open_cameras ev cs [] w0 = (Inr rs, w1)"
    and "loop_reach ev a cs rs nm st (init_ep_state cs, w) (fl, s, w')"
  shows "(\<forall>name \<in> set (map fst cs). frames_written s name = length (rows s)) \<and>
         frame_count s = int (length (rows s)) \<and>
         ((\<exists>k < length rs. \<not> fst (cam_read ev (n_reads w' + k))) \<longrightarrow>
            (\<exists>wb. tick ev a cs rs nm st (s, w') = (Next, s, wb) \<and>
                  filter (\<lambda>e. \<not> is_read_event e) (drop (length (trace w')) (trace wb)) = []))"
proof -
  note wf = cameras_wf [OF assms(1,2)]
  from reach_consistent [OF assms(3)] wf consistent_init [of cs]
  have c: "consistent cs s" by simp
  then have "\<forall>name \<in> set (map fst cs). frames_written s name = length (rows s)"
    using consistent_frames_written by blast
  moreover from c have "frame_count s = int (length (rows s))" by (simp add: consistent_def)
  moreover have "\<exists>wb. tick ev a cs rs nm st (s, w') = (Next, s, wb) \<and>
                  filter (\<lambda>e. \<not> is_read_event e) (drop (length (trace w')) (trace wb)) = []"
    if "\<exists>k < length rs. \<not> fst (cam_read ev (n_reads w' + k))"
  proof -
    from tick_failed [OF that, of a cs nm st s] obtain wb evs where
      "tick ev a cs rs nm st (s, w') = (Next, s, wb)" "trace wb = trace w' @ evs"
      "\<forall>e \<in> set evs. is_read_event e"
      by blast
    then show ?thesis by (auto simp: filter_empty_conv)
  qed
  ultimately show ?thesis by blast
qed

theorem failed_tick_discarded_videos_match_rows_witness:
  "fst (snd (tick env_wrist_drops args_two cams_two cams_two ''episode_000000'' 0
               (init_ep_state cams_two, world1))) = init_ep_state cams_two \<and>
   frames_written
     (fst (snd (tick env_wrist_drops args_two cams_two cams_two ''episode_000000'' 0
        (snd (tick env_wrist_drops args_two cams_two cams_two ''episode_000000'' 0
               (init_ep_state cams_two, world1)))))) ''wrist'' = 1 \<and>
   length (rows
     (fst (snd (tick env_wrist_drops args_two cams_two cams_two ''episode_000000'' 0
        (snd (tick env_wrist_drops args_two cams_two cams_two ''episode_000000'' 0
               (init_ep_state cams_two, world1))))))) = 1"
proof -
  let ?tick = "tick env_wrist_drops args_two cams_two cams_two ''episode_000000'' 0"
  let ?sw0 = "(init_ep_state cams_two, world1)"
  have o: "open_cameras env_wrist_drops cams_two [] world0
             = (Inr cams_two, snd (open_cameras env_wrist_drops cams_two [] world0))"
    by (rule opened_two) (simp add: env_wrist_drops_def)
  have r0: "loop_reach env_wrist_drops args_two cams_two cams_two ''episode_000000'' 0 ?sw0 (Next, ?sw0)"
    by (rule reach_start)
  have drop: "\<exists>k < length cams_two. \<not> fst (cam_read env_wrist_drops (n_reads world1 + k))"
    by (rule exI [of _ 1]) (simp add: cams_two_def env_wrist_drops_def world1_def world0_def)
  from failed_tick_discarded_videos_match_rows [OF cfg_two o, of "''episode_000000''" 0 world1 Next
      "init_ep_state cams_two" world1] r0 drop
  obtain wb where t1: "?tick ?sw0 = (Next, init_ep_state cams_two, wb)"
    by (auto simp: init_ep_state_def)
  have lt: "frame_count (fst ?sw0) < max_frames args_two"
    by (simp add: max_frames_args_two init_ep_state_def)
  have r1: "loop_reach env_wrist_drops args_two cams_two cams_two ''episode_000000'' 0 ?sw0
              (Next, snd (?tick ?sw0))"
    using r0 lt by (rule reach_step) (simp add: t1)
  have lt1: "frame_count (fst (snd (?tick ?sw0))) < max_frames args_two"
    unfolding t1 by (simp add: max_frames_args_two init_ep_state_def)
  obtain fl2 s2 w2 where t2: "?tick (snd (?tick ?sw0)) = (fl2, s2, w2)"
    by (cases "?tick (snd (?tick ?sw0))")
  have r2: "loop_reach env_wrist_drops args_two cams_two cams_two ''episode_000000'' 0 ?sw0 (fl2, s2, w2)"
    using r1 lt1 t2 by (rule reach_step)
  have len: "length (rows s2) = 1"
    using t2 by (auto simp: eval_tick env_wrist_drops_def args_two_def)
  from failed_tick_discarded_videos_match_rows [OF cfg_two o r2]
  have "frames_written s2 ''wrist'' = length (rows s2)" by (simp add: cams_two_def)
  with len t1 t2 show ?thesis by simp
qed

text \<open>
  Claim C5 (amended). Let line 150 return \<^verbatim>\<open>max_frames = math.ceil(args.duration * args.fps)\<close>,
  the ceiling of the double nearest to the exact product (on an infinite or undefined
  product it raises, and the loop is not entered). When \<^verbatim>\<open>max_frames\<close> is not negative,
  every configuration the episode's loop reaches has \<^verbatim>\<open>0 <= frame_count <= max_frames\<close>. When
  moreover \<^verbatim>\<open>min_frames > max_frames\<close>, no pass leaves the loop through \<^verbatim>\<open>break\<close> or an
  exception; a loop that ends does so through its bound, with exactly \<^verbatim>\<open>max_frames\<close>
  frames; and it does end, within \<^verbatim>\<open>max_frames\<close> passes, when every read succeeds.
\<close>

theorem frame_count_within_bound:
  assumes "get_cam_specs a = Inr cs" and "open_cameras ev cs [] w0 = (Inr rs, w1)"
    and "max_frames_py a = Inr mx" and "0 \<le> mx"
    and "loop_reach ev a cs rs nm st (init_ep_state cs, w) (fl, s, w')"
  shows "0 \<le> frame_count s \<and> frame_count s \<le> mx \<and>
         (mx < min_frames a \<longrightarrow>
            fl = Next \<and>
            (\<forall>fuel ex s' w''.
               episode_loop fuel ev a cs rs nm st (init_ep_state cs, w) = (Some ex, s', w'') \<longrightarrow>
               ex = Bound_reached \<and> frame_count s' = mx) \<and>
            ((\<forall>n \<ge> n_reads w. fst (cam_read ev n)) \<longrightarrow>
               (\<exists>s' w''. episode_loop (nat mx) ev a cs rs nm st (init_ep_state cs, w)
                            = (Some Bound_reached, s', w'') \<and>
                          frame_count s' = mx)))"
proof -
  from assms(3) have mx: "max_frames a = mx" by (rule max_frames_py_Inr)
  note wf = cameras_wf [OF assms(1,2)]
  have len: "length rs = length cs" using wf(1) by simp
  have f0: "frame_count (fst (init_ep_state cs, w)) = 0" by (simp add: init_ep_state_def)
  have c0: "consistent cs (fst (init_ep_state cs, w))" by (simp add: consistent_init)
  have bounds: "0 \<le> frame_count (fst (snd c)) \<and> frame_count (fst (snd c)) \<le> mx \<and>
                (fst c = Break \<longrightarrow> min_frames a \<le> frame_count (fst (snd c)))"
    if "loop_reach ev a cs rs nm st (init_ep_state cs, w) c" for c
    using reach_bounds [OF that] f0 assms(4) mx by simp
  have flows: "fst c = Next \<or> fst c = Break"
    if "loop_reach ev a cs rs nm st (init_ep_state cs, w) c" for c
    using reach_consistent [OF that c0 wf(2) len] by simp
  have next_only: "fst c = Next"
    if "loop_reach ev a cs rs nm st (init_ep_state cs, w) c" "mx < min_frames a" for c
    using bounds [OF that(1)] flows [OF that(1)] that(2) by auto
  have ends: "ex = Bound_reached \<and> frame_count s' = mx"
    if run: "episode_loop fuel ev a cs rs nm st (init_ep_state cs, w) = (Some ex, s', w'')"
      and lt: "mx < min_frames a" for fuel ex s' w''
  proof -
    from episode_loop_reach [OF run reach_start] obtain fl' where
      r: "loop_reach ev a cs rs nm st (init_ep_state cs, w) (fl', s', w'')"
      and e: "case ex of Bound_reached \<Rightarrow> fl' = Next \<and> \<not> frame_count s' < max_frames a
                | Min_frames_reached \<Rightarrow> fl' = Break | Loop_raised e \<Rightarrow> fl' = Raise e"
      by blast
    from next_only [OF r lt] have "fl' = Next" by simp
    with e have "ex = Bound_reached" "\<not> frame_count s' < mx"
      unfolding mx by (cases ex; simp)+
    with bounds [OF r] show ?thesis by simp
  qed
  have stops: "\<exists>s' w''. episode_loop (nat mx) ev a cs rs nm st (init_ep_state cs, w)
                            = (Some Bound_reached, s', w'') \<and> frame_count s' = mx"
    if allok: "\<forall>n \<ge> n_reads w. fst (cam_read ev n)" and lt: "mx < min_frames a"
  proof -
    have "nat (max_frames a - frame_count (init_ep_state cs)) \<le> nat mx"
      using f0 mx by simp
    from loop_all_ok [OF wf(2) len consistent_init allok this, of nm st]
    obtain ex s' w'' where
      run: "episode_loop (nat mx) ev a cs rs nm st (init_ep_state cs, w)
              = (Some ex, s', w'')"
      by blast
    with ends [OF run lt] show ?thesis by simp
  qed
  have b: "0 \<le> frame_count s" "frame_count s \<le> mx"
    using bounds [OF assms(5)] by simp_all
  show ?thesis
  proof (intro conjI impI)
    show "0 \<le> frame_count s" by (rule b(1))
    show "frame_count s \<le> mx" by (rule b(2))
  next
    assume lt: "mx < min_frames a"
    from next_only [OF assms(5) lt] show "fl = Next" by simp
    from ends lt
    show "\<forall>fuel ex s' w''.
            episode_loop fuel ev a cs rs nm st (init_ep_state cs, w) = (Some ex, s', w'') \<longrightarrow>
            ex = Bound_reached \<and> frame_count s' = mx"
      by blast
  next
    assume lt: "mx < min_frames a" and allok: "\<forall>n \<ge> n_reads w. fst (cam_read ev n)"
    from stops [OF allok lt]
    show "\<exists>s' w''. episode_loop (nat mx) ev a cs rs nm st (init_ep_state cs, w)
                      = (Some Bound_reached, s', w'') \<and> frame_count s' = mx" .
  qed
qed

theorem frame_count_within_bound_witness:
  "(\<exists>s' w'. episode_loop 30 env_ok args_one_second cams_front cams_front ''episode_000000'' 0
               (init_ep_state cams_front, world1) = (Some Bound_reached, s', w') \<and>
             frame_count s' = 30) \<and>
   (\<exists>s' w'. episode_loop 8 env_ok args_float_007 cams_front cams_front ''episode_000000'' 0
               (init_ep_state cams_front, world1) = (Some Bound_reached, s', w') \<and>
             frame_count s' = 8)"
proof -
  have cfg: "get_cam_specs args_one_second = Inr cams_front"
    "get_cam_specs args_float_007 = Inr cams_front"
    by (rule cfg_default, simp add: args_one_second_def args_float_007_def)+
  have o: "open_cameras env_ok cams_front [] world0
             = (Inr cams_front, snd (open_cameras env_ok cams_front [] world0))"
    by (rule opened_front) (simp add: env_ok_def)
  have m: "min_frames args_one_second = 50" "min_frames args_float_007 = 50"
    by (simp_all add: args_one_second_def args_float_007_def)
  have r: "loop_reach env_ok a cams_front cams_front ''episode_000000'' 0
             (init_ep_state cams_front, world1) (Next, init_ep_state cams_front, world1)" for a
    by (rule reach_start)
  from frame_count_within_bound [OF cfg(1) o max_frames_py_args_one_second _ r] env_ok_reads
  have a: "\<exists>s' w'. episode_loop 30 env_ok args_one_second cams_front cams_front ''episode_000000'' 0
                      (init_ep_state cams_front, world1) = (Some Bound_reached, s', w') \<and>
                    frame_count s' = 30"
    by (simp add: m)
  from frame_count_within_bound [OF cfg(2) o max_frames_py_args_float_007 _ r] env_ok_reads
  have b: "\<exists>s' w'. episode_loop 8 env_ok args_float_007 cams_front cams_front ''episode_000000'' 0
                      (init_ep_state cams_front, world1) = (Some Bound_reached, s', w') \<and>
                    frame_count s' = 8"
    by (simp add: m)
  from a b show ?thesis by (intro conjI)
qed

theorem frame_count_bound_counterexample:
  "loop_reach env_ok args_negative_duration cams_front cams_front ''episode_000000'' 0
     (init_ep_state cams_front, world1) (Next, init_ep_state cams_front, world1) \<and>
   frame_count (init_ep_state cams_front) = 0 \<and>
   max_frames_py args_negative_duration = Inr (- 30) \<and>
   max_frames args_negative_duration = - 30 \<and>
   \<not> frame_count (init_ep_state cams_front) \<le> max_frames args_negative_duration"
proof -
  have r: "loop_reach env_ok args_negative_duration cams_front cams_front ''episode_000000'' 0
     (init_ep_state cams_front, world1) (Next, init_ep_state cams_front, world1)"
    by (rule reach_start)
  have m: "max_frames_py args_negative_duration = Inr (- 30)"
    by (simp add: eval_max_frames args_negative_duration_def)
  then have m': "max_frames args_negative_duration = - 30" by (rule max_frames_py_Inr)
  have "frame_count (init_ep_state cams_front) = 0" by (simp add: init_ep_state_def)
  with r m m' show ?thesis by simp
qed

text \<open>
  Claim C6 (amended). A run never removes or changes a line that \<^verbatim>\<open>tasks.jsonl\<close>,
  \<^verbatim>\<open>episodes.jsonl\<close> or \<^verbatim>\<open>episodes_stats.jsonl\<close> already had: the old content stays as a
  prefix of the new one, whether the run completes, raises, or is still recording. An
  existing \<^verbatim>\<open>tasks.jsonl\<close> is left as it is. When the camera configuration is accepted,
  \<^verbatim>\<open>info.json\<close> is replaced by this run's record whatever it held before, and an absent
  \<^verbatim>\<open>tasks.jsonl\<close> is created with the one task line; when the configuration is rejected,
  nothing at all is written.
\<close>

theorem logs_append_only_info_rewritten:
  assumes "record_dataset fuel ev a w = (st, w')"
  shows "keeps_lines w w' (tasks_path a) \<and> keeps_lines w w' (episodes_path a) \<and>
         keeps_lines w w' (stats_path a) \<and>
         (files w (tasks_path a) \<noteq> None \<longrightarrow> files w' (tasks_path a) = files w (tasks_path a)) \<and>
         (\<forall>cs. get_cam_specs a = Inr cs \<longrightarrow>
            files w' (info_path a) = Some [Info_json (fps a) True] \<and>
            (files w (tasks_path a) = None \<longrightarrow>
               files w' (tasks_path a) = Some [Task_line 0 (task a)])) \<and>
         (\<forall>e. get_cam_specs a = Inl e \<longrightarrow> w' = w)"
proof (cases "get_cam_specs a")
  case (Inl e)
  with assms have "w' = w" by (simp add: record_dataset_def)
  with Inl show ?thesis by (simp add: keeps_lines_iff)
next
  case (Inr cs)
  have k: "keeps_lines w w' p" if "p \<noteq> info_path a" for p
    using keeps_lines_make_layout [OF that, of w cs] record_dataset_frame(5) [OF assms Inr, of p]
    by (rule keeps_lines_trans)
  have t: "files w' (tasks_path a) = files (make_layout a cs w) (tasks_path a)"
    by (rule record_dataset_frame(4) [OF assms Inr])
  have i: "files w' (info_path a) = Some [Info_json (fps a) True]"
    by (rule record_dataset_frame(3) [OF assms Inr])
  from k [of "tasks_path a"] k [of "episodes_path a"] k [of "stats_path a"] t i Inr
  show ?thesis by (auto simp: make_layout_files)
qed

theorem logs_append_only_info_rewritten_witness:
  "(\<exists>more. files (snd (record_dataset 400 env_ok args_two world_rerun)) (episodes_path args_two)
             = Some (Episode_line 0 50 [0] # more)) \<and>
   (\<exists>more. files (snd (record_dataset 400 env_ok args_two world_rerun)) (stats_path args_two)
             = Some (Stats_line 0 50 # more)) \<and>
   files (snd (record_dataset 400 env_ok args_two world_rerun)) (tasks_path args_two)
     = Some [Task_line 0 ''Pick the cube''] \<and>
   files (snd (record_dataset 400 env_ok args_two world_rerun)) (info_path args_two)
     = Some [Info_json 30 True]"
proof -
  let ?r = "record_dataset 400 env_ok args_two world_rerun"
  have run: "?r = (fst ?r, snd ?r)" by simp
  have old: "files world_rerun (episodes_path args_two) = Some [Episode_line 0 50 [0]]"
    "files world_rerun (stats_path args_two) = Some [Stats_line 0 50]"
    "files world_rerun (tasks_path args_two) = Some [Task_line 0 ''Pick the cube'']"
    by (simp_all add: world_rerun_def args_two_def episodes_path_def stats_path_def
        tasks_path_def meta_dir_def)
  have f: "fps args_two = 30" by (simp add: args_two_def)
  from logs_append_only_info_rewritten [OF run] old get_cam_specs_args_two f
  show ?thesis by (simp add: keeps_lines_iff)
qed

theorem info_json_rewritten_counterexample:
  "files (snd (record_dataset 400 env_ok args_no_eq world_rerun)) (info_path args_no_eq)
     \<noteq> Some [Info_json (fps args_no_eq) True]"
proof -
  have "record_dataset 400 env_ok args_no_eq world_rerun
          = (Some (Raised (ValueError_camera_format ''front'')), world_rerun)"
    by (simp add: record_dataset_def get_cam_specs_args_no_eq)
  then show ?thesis
    by (simp add: world_rerun_def args_no_eq_def info_path_def meta_dir_def)
qed

text \<open>
  Claim C7 (amended). In every configuration the episode's loop reaches, the \<open>i\<close>-th row
  (from 0) has frame index \<open>i\<close>, and the rows' timestamps are readings of the clock, taken
  at strictly later and later calls of \<^verbatim>\<open>time.time()\<close>, minus \<^verbatim>\<open>start_t\<close>. So the timestamps
  are strictly increasing whenever the successive readings of the clock are.
\<close>

theorem rows_indexed_timestamps_follow_clock:
  assumes "loop_reach ev a cs rs nm st (init_ep_state cs, w) (fl, s, w')"
  shows "map frame (rows s) = map int [0..<length (rows s)] \<and>
         (\<exists>ks. map timestamp (rows s) = map (\<lambda>k. clock ev k - st) ks \<and> sorted_wrt (<) ks) \<and>
         (strict_mono (clock ev) \<longrightarrow> sorted_wrt (<) (map timestamp (rows s)))"
proof -
  have "rows (fst (init_ep_state cs, w)) = []" "frame_count (fst (init_ep_state cs, w)) = 0"
    by (simp_all add: init_ep_state_def)
  from reach_rows [OF assms this] obtain ks where
    f: "map frame (rows s) = map int [0..<length (rows s)]"
    and ts: "map timestamp (rows s) = map (\<lambda>k. clock ev k - st) ks" and srt: "sorted_wrt (<) ks"
    by auto
  have "sorted_wrt (<) (map timestamp (rows s))" if mono: "strict_mono (clock ev)"
  proof -
    have "sorted_wrt (\<lambda>x y. clock ev x - st < clock ev y - st) ks"
      using srt by (rule sorted_wrt_mono_rel [rotated]) (use mono in \<open>simp add: strict_mono_def\<close>)
    then show ?thesis unfolding ts by (simp add: sorted_wrt_map)
  qed
  with f ts srt show ?thesis by blast
qed

theorem rows_indexed_timestamps_follow_clock_witness:
  "map frame (rows (fst (snd (episode_loop 2 env_ok args_two_frames cams_front cams_front
                                 ''episode_000000'' 0 (init_ep_state cams_front, world1)))))
     = [0, 1] \<and>
   sorted_wrt (<)
     (map timestamp (rows (fst (snd (episode_loop 2 env_ok args_two_frames cams_front cams_front
                                 ''episode_000000'' 0 (init_ep_state cams_front, world1))))))"
proof -
  let ?r = "episode_loop 2 env_ok args_two_frames cams_front cams_front
              ''episode_000000'' 0 (init_ep_state cams_front, world1)"
  have e: "fst ?r = Some Min_frames_reached" and l: "length (rows (fst (snd ?r))) = 2"
    by (simp_all add: eval_nat_numeral eval_tick cams_front_def env_ok_def args_two_frames_def
        max_frames_args_two_frames [unfolded args_two_frames_def])
  have run: "?r = (Some Min_frames_reached, fst (snd ?r), snd (snd ?r))"
    using e by (metis prod.collapse)
  from episode_loop_reach [OF run reach_start] obtain fl where
    r: "loop_reach env_ok args_two_frames cams_front cams_front ''episode_000000'' 0
          (init_ep_state cams_front, world1) (fl, fst (snd ?r), snd (snd ?r))"
    by blast
  have mono: "strict_mono (clock env_ok)"
    by (simp add: strict_mono_def env_ok_def)
  have "[0..<2] = [0, Suc 0]" by (simp add: eval_nat_numeral)
  with rows_indexed_timestamps_follow_clock [OF r] mono l show ?thesis by simp
qed

theorem timestamps_increasing_counterexample:
  "clock env_clock_set_back 0 = 1000 \<and>
   map timestamp (rows (fst (snd (episode_loop 2 env_clock_set_back args_two_frames cams_front
       cams_front ''episode_000000'' 1000 (init_ep_state cams_front, world1)))))
     = [1 / 50, - (199 / 20)]"
  by (simp add: eval_nat_numeral eval_tick cams_front_def env_clock_set_back_def
      args_two_frames_def max_frames_args_two_frames [unfolded args_two_frames_def])

text \<open>
  Claim C8. When some \<^verbatim>\<open>--camera\<close> spec has no \<^verbatim>\<open>=\<close>, or the list of specs is empty,
  \<^verbatim>\<open>record_dataset\<close> raises a \<^verbatim>\<open>ValueError\<close> and the world is exactly the one it started
  in: no directory or file was written and no camera was opened (the trace has no new
  event), whatever the devices would have answered.
\<close>

theorem config_error_before_any_device:
  assumes "camera a = Some specs"
    and "(\<exists>spec \<in> set specs. CHR ''='' \<notin> set spec) \<or> specs = []"
  shows "\<exists>e. record_dataset fuel ev a w = (Some (Raised e), w) \<and> is_ValueError e"
proof -
  have "\<exists>e. get_cam_specs a = Inl e \<and> is_ValueError e"
  proof (cases "specs = []")
    case True
    with assms(1) show ?thesis by (simp add: get_cam_specs_def)
  next
    case False
    with assms(2) obtain e where "parse_cam_specs specs [] = Inl e" "is_ValueError e"
      using parse_cam_specs_missing_eq by blast
    with assms(1) show ?thesis by (simp add: get_cam_specs_def)
  qed
  then show ?thesis by (auto simp: record_dataset_def)
qed

theorem config_error_before_any_device_witness:
  "\<exists>e. record_dataset 7 env_ok args_no_eq world0 = (Some (Raised e), world0) \<and> is_ValueError e"
proof -
  have c: "camera args_no_eq = Some [''front'']"
    by (simp add: args_no_eq_def)
  have b: "(\<exists>spec \<in> set [''front'']. CHR ''='' \<notin> set spec) \<or> [''front''] = []"
    by simp
  show ?thesis
    using config_error_before_any_device [OF c b] by simp
qed

text \<open>
  Claim C9. In the events of an episode's loop no \<^verbatim>\<open>time.sleep\<close> stands between a read
  that failed and the next read. A pass in which one of the reads fails ends with
  \<^verbatim>\<open>continue\<close>, leaves the state as it was and does not sleep, so the next pass, which
  starts with a read, follows at once.
\<close>

theorem no_sleep_after_failed_tick:
  assumes "loop_reach ev a cs rs nm st (s0, w0) (fl, s, w)"
  shows "no_sleep_after_failed_read False (drop (length (trace w0)) (trace w)) \<and>
         ((\<exists>k < length rs. \<not> fst (cam_read ev (n_reads w + k))) \<longrightarrow>
            (\<exists>wb. tick ev a cs rs nm st (s, w) = (Next, s, wb) \<and>
                  filter is_sleep_event (drop (length (trace w)) (trace wb)) = []))"
proof -
  from reach_no_sleep [OF assms]
  have "no_sleep_after_failed_read False (drop (length (trace w0)) (trace w))" by auto
  moreover have "\<exists>wb. tick ev a cs rs nm st (s, w) = (Next, s, wb) \<and>
                  filter is_sleep_event (drop (length (trace w)) (trace wb)) = []"
    if "\<exists>k < length rs. \<not> fst (cam_read ev (n_reads w + k))"
  proof -
    from tick_failed [OF that, of a cs nm st s] obtain wb evs where
      "tick ev a cs rs nm st (s, w) = (Next, s, wb)" "trace wb = trace w @ evs"
      "\<forall>e \<in> set evs. is_read_event e"
      by blast
    then show ?thesis using sleep_not_read by (auto simp: filter_empty_conv)
  qed
  ultimately show ?thesis by blast
qed

theorem no_sleep_after_failed_tick_witness:
  "fst (tick env_no_frames args_two cams_two cams_two ''episode_000000'' 0
          (snd (tick env_no_frames args_two cams_two cams_two ''episode_000000'' 0
                  (init_ep_state cams_two, world1)))) = Next \<and>
   no_sleep_after_failed_read False
     (trace (snd (snd (tick env_no_frames args_two cams_two cams_two ''episode_000000'' 0
          (snd (tick env_no_frames args_two cams_two cams_two ''episode_000000'' 0
                  (init_ep_state cams_two, world1)))))))"
proof -
  let ?tick = "tick env_no_frames args_two cams_two cams_two ''episode_000000'' 0"
  let ?sw0 = "(init_ep_state cams_two, world1)"
  have fails: "\<exists>k < length cams_two. \<not> fst (cam_read env_no_frames (n_reads w + k))" for w
    by (rule exI [of _ 0]) (simp add: cams_two_def env_no_frames_def)
  have r0: "loop_reach env_no_frames args_two cams_two cams_two ''episode_000000'' 0 ?sw0 (Next, ?sw0)"
    by (rule reach_start)
  from no_sleep_after_failed_tick [OF r0] fails [of world1]
  obtain wb where t1: "?tick ?sw0 = (Next, init_ep_state cams_two, wb)" by blast
  have lt: "frame_count (fst ?sw0) < max_frames args_two"
    by (simp add: max_frames_args_two init_ep_state_def)
  have r1: "loop_reach env_no_frames args_two cams_two cams_two ''episode_000000'' 0 ?sw0
              (Next, init_ep_state cams_two, wb)"
    using r0 lt t1 by (rule reach_step)
  from no_sleep_after_failed_tick [OF r1] fails [of wb]
  obtain wc where t2: "?tick (init_ep_state cams_two, wb) = (Next, init_ep_state cams_two, wc)"
    by blast
  have lt': "frame_count (fst (init_ep_state cams_two, wb)) < max_frames args_two"
    by (simp add: max_frames_args_two init_ep_state_def)
  have r2: "loop_reach env_no_frames args_two cams_two cams_two ''episode_000000'' 0 ?sw0
              (Next, init_ep_state cams_two, wc)"
    using r1 lt' t2 by (rule reach_step)
  from no_sleep_after_failed_tick [OF r2]
  have "no_sleep_after_failed_read False (drop (length (trace world1)) (trace wc))" by blast
  then show ?thesis using t1 t2 by (simp add: world1_def world0_def)
qed

text \<open>
  Claim C10. Whenever a run opens (or tries to open) a camera, the events before the
  first such attempt already include the creation of the \<^verbatim>\<open>meta\<close>, \<^verbatim>\<open>data\<close> and per-camera
  video directories, the write of \<^verbatim>\<open>info.json\<close> and, when \<^verbatim>\<open>tasks.jsonl\<close> was absent, its
  creation. So a run that ends with the error of a camera that did not open leaves the
  directories in place, \<^verbatim>\<open>info.json\<close> holding this run's record, and \<^verbatim>\<open>tasks.jsonl\<close> created
  if it was absent: the failed run has changed the dataset's metadata.
\<close>

theorem layout_written_before_camera_open:
  assumes "record_dataset fuel ev a w = (st, w')"
  shows "((\<exists>e \<in> set (drop (length (trace w)) (trace w')). is_open_event e) \<longrightarrow>
            (let before_open =
                   takeWhile (\<lambda>e. \<not> is_open_event e) (drop (length (trace w)) (trace w'))
             in E_mkdir (meta_dir a) \<in> set before_open \<and>
                E_mkdir (data_dir a) \<in> set before_open \<and>
                (\<forall>cs. get_cam_specs a = Inr cs \<longrightarrow>
                   (\<forall>name \<in> set (map fst cs). E_mkdir (video_dir a name) \<in> set before_open)) \<and>
                E_write_info (info_path a) (Info_json (fps a) True) \<in> set before_open \<and>
                (files w (tasks_path a) = None \<longrightarrow>
                   E_append (tasks_path a) (Task_line 0 (task a)) \<in> set before_open))) \<and>
         (\<forall>i. st = Some (Raised (RuntimeError_open i)) \<longrightarrow>
            meta_dir a \<in> dirs w' \<and> data_dir a \<in> dirs w' \<and>
            files w' (info_path a) = Some [Info_json (fps a) True] \<and>
            (files w (tasks_path a) = None \<longrightarrow>
               files w' (tasks_path a) = Some [Task_line 0 (task a)]))"
proof (cases "get_cam_specs a")
  case (Inl e)
  with assms have "w' = w" "st = Some (Raised e)" by (simp_all add: record_dataset_def)
  moreover from Inl have "is_ValueError e" by (rule get_cam_specs_error)
  ultimately show ?thesis by auto
next
  case (Inr cs)
  let ?L = "map E_mkdir ([meta_dir a, data_dir a] @ map (video_dir a) (map fst cs))
       @ [E_write_info (info_path a) (Info_json (fps a) True)]
       @ (if files w (tasks_path a) = None then [E_append (tasks_path a) (Task_line 0 (task a))] else [])"
  from record_dataset_frame(1) [OF assms Inr] obtain evs
    where "trace w' = trace (make_layout a cs w) @ evs" ..
  then have new: "drop (length (trace w)) (trace w') = ?L @ evs"
    by (simp add: make_layout_trace)
  have nl: "\<not> is_open_event e" if "e \<in> set ?L" for e
    using that by auto
  have tw: "takeWhile (\<lambda>e. \<not> is_open_event e) (?L @ evs)
              = ?L @ takeWhile (\<lambda>e. \<not> is_open_event e) evs"
    by (rule takeWhile_append2) (rule nl)
  have sub: "set ?L \<subseteq> set (takeWhile (\<lambda>e. \<not> is_open_event e) (drop (length (trace w)) (trace w')))"
    unfolding new tw by auto
  have first: "let before_open =
                   takeWhile (\<lambda>e. \<not> is_open_event e) (drop (length (trace w)) (trace w'))
             in E_mkdir (meta_dir a) \<in> set before_open \<and>
                E_mkdir (data_dir a) \<in> set before_open \<and>
                (\<forall>cs. get_cam_specs a = Inr cs \<longrightarrow>
                   (\<forall>name \<in> set (map fst cs). E_mkdir (video_dir a name) \<in> set before_open)) \<and>
                E_write_info (info_path a) (Info_json (fps a) True) \<in> set before_open \<and>
                (files w (tasks_path a) = None \<longrightarrow>
                   E_append (tasks_path a) (Task_line 0 (task a)) \<in> set before_open)"
    unfolding Let_def using sub Inr by auto
  have d: "dirs w' = dirs (make_layout a cs w)"
    by (rule record_dataset_frame(2) [OF assms Inr])
  have second: "meta_dir a \<in> dirs w' \<and> data_dir a \<in> dirs w' \<and>
            files w' (info_path a) = Some [Info_json (fps a) True] \<and>
            (files w (tasks_path a) = None \<longrightarrow>
               files w' (tasks_path a) = Some [Task_line 0 (task a)])"
    using record_dataset_frame(3,4) [OF assms Inr] make_layout_dirs(1,2) [of a cs w] d
    by (simp add: make_layout_files)
  from first second show ?thesis by blast
qed

theorem layout_written_before_camera_open_witness:
  "fst (record_dataset 400 env_wrist_fails args_two world0) = Some (Raised (RuntimeError_open 2)) \<and>
   E_write_info (info_path args_two) (Info_json 30 True)
     \<in> set (takeWhile (\<lambda>e. \<not> is_open_event e)
               (trace (snd (record_dataset 400 env_wrist_fails args_two world0)))) \<and>
   E_append (tasks_path args_two) (Task_line 0 ''Custom task'')
     \<in> set (takeWhile (\<lambda>e. \<not> is_open_event e)
               (trace (snd (record_dataset 400 env_wrist_fails args_two world0)))) \<and>
   meta_dir args_two \<in> dirs (snd (record_dataset 400 env_wrist_fails args_two world0)) \<and>
   files (snd (record_dataset 400 env_wrist_fails args_two world0)) (info_path args_two)
     = Some [Info_json 30 True] \<and>
   files (snd (record_dataset 400 env_wrist_fails args_two world0)) (tasks_path args_two)
     = Some [Task_line 0 ''Custom task'']"
proof -
  let ?r = "record_dataset 400 env_wrist_fails args_two world0"
  have run: "?r = (fst ?r, snd ?r)" by simp
  from run_wrist_fails [of 400] obtain w' where
    r: "?r = (Some (Raised (RuntimeError_open 2)), w')" and
    t: "trace w' = trace (make_layout args_two [(''front'', 0), (''wrist'', 2)] world0)
                     @ [E_open ''front'' 0 True, E_open ''wrist'' 2 False]"
    by blast
  have st: "fst ?r = Some (Raised (RuntimeError_open 2))" using r by simp
  have e: "trace world0 = []" by (simp add: world0_def)
  have "E_open ''front'' 0 True \<in> set (trace (snd ?r))" using r t by simp
  moreover have "is_open_event (E_open ''front'' 0 True)" by simp
  ultimately have "\<exists>e \<in> set (trace (snd ?r)). is_open_event e" by (rule bexI [rotated])
  then have opened: "\<exists>e \<in> set (drop (length (trace world0)) (trace (snd ?r))). is_open_event e"
    by (simp add: e)
  have absent: "files world0 (tasks_path args_two) = None" by (simp add: world0_def)
  have v: "fps args_two = 30" "task args_two = ''Custom task''" by (simp_all add: args_two_def)
  from layout_written_before_camera_open [OF run] opened st absent
  show ?thesis by (simp add: v e Let_def)
qed

end
